theory Spec2Isabelle
  imports Main "HOL-Library.Word"
begin

section \<open>V3Undriven: unused and undriven signals\<close>

text \<open>
  A shallow embedding of \<^verbatim>\<open>V3Undriven.cpp\<close>. The class \<^verbatim>\<open>UndrivenVarEntry\<close> becomes a
  record together with functions that return the updated record; the visitor becomes a
  recursive function over the tree that threads the visitor's state. A C++ \<^verbatim>\<open>int\<close> is an
  \<open>int\<close> here. Where the constructor, \<^verbatim>\<open>bitNumOk\<close>, \<^verbatim>\<open>usedBit\<close> and \<^verbatim>\<open>drivenBit\<close>
  compute with values that come from the tree, a result outside the 32-bit range is
  undefined behaviour in C++ and the error \<open>SignedOverflow\<close> here; \<^verbatim>\<open>bitNames\<close> returns a
  string, and its sums wrap around (\<open>wrap32\<close>). A write through
  \<^verbatim>\<open>m_flags[...]\<close> outside the vector is the error \<open>OutOfBounds\<close>. The \<^verbatim>\<open>UINFO\<close> debug
  prints are left out.
\<close>

subsection \<open>Data\<close>

datatype error = SignedOverflow | LengthError | OutOfBounds | DanglingPointer

definition int_ok :: "int \<Rightarrow> bool" where
  "int_ok x = (- (2 ^ 31) \<le> x \<and> x < 2 ^ 31)"

text \<open>
  What the pass reads of an \<^verbatim>\<open>AstVar\<close>: \<open>ident\<close> stands for the node's address,
  \<open>lsb\<close> and \<open>littleEndian\<close> are \<^verbatim>\<open>basicp()->lsb()\<close> and \<^verbatim>\<open>basicp()->littleEndian()\<close>.
\<close>

record AstVar =
  ident :: nat
  prettyName :: string
  width :: int
  lsb :: int
  littleEndian :: bool
  isParam :: bool
  isGenVar :: bool
  isInput :: bool
  isOutput :: bool
  isSigPublic :: bool
  isSigUserRWPublic :: bool
  isSigUserRdPublic :: bool

record UndrivenVarEntry =
  m_varp :: AstVar
  m_usedWhole :: bool
  m_drivenWhole :: bool
  m_flags :: "bool list"

definition FLAG_USED :: int where [simp]: "FLAG_USED = 0"
definition FLAG_DRIVEN :: int where [simp]: "FLAG_DRIVEN = 1"
definition FLAGS_PER_BIT :: int where [simp]: "FLAGS_PER_BIT = 2"

datatype V3ErrorCode = UNUSED | UNDRIVEN

text \<open>A warning handed to the sink by \<^verbatim>\<open>nodep->v3warn(code, msg)\<close>.\<close>

datatype diag = Diag (d_node: AstVar) (d_code: V3ErrorCode) (d_msg: string)

definition v3warn :: "AstVar \<Rightarrow> V3ErrorCode \<Rightarrow> string \<Rightarrow> diag" where
  "v3warn nodep code msg = Diag nodep code msg"

subsection \<open>UndrivenVarEntry\<close>

text \<open>
  The constructor. \<^verbatim>\<open>resize\<close> takes a \<^verbatim>\<open>size_t\<close>: a negative width asks for more than
  \<^verbatim>\<open>max_size()\<close> elements and throws.
\<close>

definition new_UndrivenVarEntry :: "AstVar \<Rightarrow> error + UndrivenVarEntry" where
  "new_UndrivenVarEntry varp =
     (if \<not> int_ok (width varp * FLAGS_PER_BIT) then Inl SignedOverflow
      else if width varp * FLAGS_PER_BIT < 0 then Inl LengthError
      else Inr \<lparr> m_varp = varp, m_usedWhole = False, m_drivenWhole = False,
                 m_flags = replicate (nat (width varp * FLAGS_PER_BIT)) False \<rparr>)"

definition bitNumOk :: "UndrivenVarEntry \<Rightarrow> int \<Rightarrow> error + bool" where
  "bitNumOk e bitn =
     (if \<not> int_ok (bitn * FLAGS_PER_BIT) then Inl SignedOverflow
      else Inr (bitn * FLAGS_PER_BIT < int (length (m_flags e))))"

text \<open>Both readers are only called with \<open>bit\<close> below \<^verbatim>\<open>m_flags.size()/FLAGS_PER_BIT\<close>.\<close>

definition usedFlag :: "UndrivenVarEntry \<Rightarrow> nat \<Rightarrow> bool" where
  "usedFlag e bitn = m_flags e ! (bitn * 2 + nat FLAG_USED)"

definition drivenFlag :: "UndrivenVarEntry \<Rightarrow> nat \<Rightarrow> bool" where
  "drivenFlag e bitn = m_flags e ! (bitn * 2 + nat FLAG_DRIVEN)"

definition usedWhole :: "UndrivenVarEntry \<Rightarrow> UndrivenVarEntry" where
  "usedWhole e = e\<lparr>m_usedWhole := True\<rparr>"

definition drivenWhole :: "UndrivenVarEntry \<Rightarrow> UndrivenVarEntry" where
  "drivenWhole e = e\<lparr>m_drivenWhole := True\<rparr>"

text \<open>The assignment \<^verbatim>\<open>m_flags[idx] = true\<close>.\<close>

definition setFlag :: "UndrivenVarEntry \<Rightarrow> int \<Rightarrow> error + UndrivenVarEntry" where
  "setFlag e idx =
     (if 0 \<le> idx \<and> idx < int (length (m_flags e))
      then Inr (e\<lparr>m_flags := (m_flags e)[nat idx := True]\<rparr>)
      else Inl OutOfBounds)"

text \<open>
  The loop shared by \<^verbatim>\<open>usedBit\<close> and \<^verbatim>\<open>drivenBit\<close>, which differ in the flag only:
  \<^verbatim>\<open>for (int i=0; i<width; i++) if (bitNumOk(bit+i)) m_flags[(bit+i)*FLAGS_PER_BIT + flag] = true;\<close>
\<close>

function markBit_loop :: "int \<Rightarrow> UndrivenVarEntry \<Rightarrow> int \<Rightarrow> int \<Rightarrow> int \<Rightarrow> error + UndrivenVarEntry" where
  "markBit_loop flag e bitn w i =
     (if i < w then
        (if \<not> int_ok (bitn + i) then Inl SignedOverflow
         else case bitNumOk e (bitn + i) of
           Inl err \<Rightarrow> Inl err
         | Inr ok \<Rightarrow>
             if ok then
               (case setFlag e ((bitn + i) * FLAGS_PER_BIT + flag) of
                  Inl err \<Rightarrow> Inl err
                | Inr e' \<Rightarrow> markBit_loop flag e' bitn w (i + 1))
             else markBit_loop flag e bitn w (i + 1))
      else Inr e)"
  by pat_completeness auto
termination
  by (relation "measure (\<lambda>(flag, e, bitn, w, i). nat (w - i))") auto

declare markBit_loop.simps [simp del]

definition usedBit :: "UndrivenVarEntry \<Rightarrow> int \<Rightarrow> int \<Rightarrow> error + UndrivenVarEntry" where
  "usedBit e bitn w = markBit_loop FLAG_USED e bitn w 0"

definition drivenBit :: "UndrivenVarEntry \<Rightarrow> int \<Rightarrow> int \<Rightarrow> error + UndrivenVarEntry" where
  "drivenBit e bitn w = markBit_loop FLAG_DRIVEN e bitn w 0"

text \<open>
  Modelled from the spec: \<^verbatim>\<open>cvtToStr\<close> is declared outside this file; it renders an
  \<^verbatim>\<open>int\<close> as the stream operator does, in decimal with a leading minus sign.
\<close>

fun nat_str :: "nat \<Rightarrow> string" where
  "nat_str n = (if n < 10 then [''0123456789'' ! n]
                else nat_str (n div 10) @ [''0123456789'' ! (n mod 10)])"

declare nat_str.simps [simp del]

definition cvtToStr :: "int \<Rightarrow> string" where
  "cvtToStr i = (if i < 0 then CHR ''-'' # nat_str (nat (- i)) else nat_str (nat i))"

text \<open>
  The value of an \<^verbatim>\<open>int\<close> sum as the machine gives it: inside the 32-bit range the sum
  itself, outside it (undefined behaviour in C++) the sum wrapped around.
\<close>

definition wrap32 :: "int \<Rightarrow> int" where
  "wrap32 x = (x + 2 ^ 31) mod 2 ^ 32 - 2 ^ 31"

text \<open>
  The text of one run of \<^verbatim>\<open>bitNames\<close>, from local bit \<open>lsb_run\<close> up to local bit
  \<open>msb_run\<close>: the sums \<^verbatim>\<open>lsb+bdtypep->lsb()\<close> and \<^verbatim>\<open>msb+bdtypep->lsb()\<close> are sums
  of two \<^verbatim>\<open>int\<close>s.
\<close>

definition runText :: "AstVar \<Rightarrow> int \<Rightarrow> int \<Rightarrow> string" where
  "runText bdtypep lsb_run msb_run =
     (if lsb_run = msb_run then cvtToStr (wrap32 (lsb_run + lsb bdtypep))
      else if littleEndian bdtypep
        then cvtToStr (wrap32 (lsb_run + lsb bdtypep)) @ '':''
               @ cvtToStr (wrap32 (msb_run + lsb bdtypep))
        else cvtToStr (wrap32 (msb_run + lsb bdtypep)) @ '':''
               @ cvtToStr (wrap32 (lsb_run + lsb bdtypep)))"

text \<open>
  The loop of \<^verbatim>\<open>bitNames\<close>, with its variables \<open>bit\<close>, \<open>prev\<close>, \<open>msb\<close> and \<open>bits\<close>;
  it runs down to \<open>bit = -1\<close>.
\<close>

function bitNames_loop :: "UndrivenVarEntry \<Rightarrow> int \<Rightarrow> int \<Rightarrow> bool \<Rightarrow> int \<Rightarrow> string \<Rightarrow> string" where
  "bitNames_loop e index bitn prev msb bits =
     (if bitn \<ge> -1 then
        (if bitn \<ge> 0 \<and> \<not> m_flags e ! nat (bitn * FLAGS_PER_BIT + index) then
           (if \<not> prev then bitNames_loop e index (bitn - 1) True bitn bits
            else bitNames_loop e index (bitn - 1) prev msb bits)
         else if prev then
           bitNames_loop e index (bitn - 1) False msb
             ((if bits \<noteq> '''' then bits @ '','' else bits) @ runText (m_varp e) (bitn + 1) msb)
         else bitNames_loop e index (bitn - 1) prev msb bits)
      else bits)"
  by pat_completeness auto
termination
  by (relation "measure (\<lambda>(e, index, bitn, prev, msb, bits). nat (bitn + 2))") auto

declare bitNames_loop.simps [simp del]

definition bitNames :: "UndrivenVarEntry \<Rightarrow> int \<Rightarrow> string" where
  "bitNames e index =
     ''['' @ bitNames_loop e index (int (length (m_flags e) div 2) - 1) False 0 '''' @ '']''"

text \<open>
  The loop of \<^verbatim>\<open>reportViolations\<close> that combines the bits, on \<open>(allU, allD, anyU, anyD)\<close>.
\<close>

function combine_loop :: "UndrivenVarEntry \<Rightarrow> nat \<Rightarrow> bool \<times> bool \<times> bool \<times> bool \<Rightarrow> bool \<times> bool \<times> bool \<times> bool" where
  "combine_loop e bitn (allU, allD, anyU, anyD) =
     (if bitn < length (m_flags e) div 2 then
        combine_loop e (bitn + 1)
          (allU \<and> usedFlag e bitn, allD \<and> drivenFlag e bitn,
           anyU \<or> usedFlag e bitn, anyD \<or> drivenFlag e bitn)
      else (allU, allD, anyU, anyD))"
  by pat_completeness auto
termination
  by (relation "measure (\<lambda>(e, bitn, acc). length (m_flags e) div 2 - bitn)") auto

declare combine_loop.simps [simp del]

text \<open>The branches under \<^verbatim>\<open>// Test results\<close>, on the entry after the promotion.\<close>

definition testResults :: "UndrivenVarEntry \<Rightarrow> bool \<Rightarrow> bool \<Rightarrow> diag list" where
  "testResults e anyU anyD =
     (let nodep = m_varp e in
      if m_usedWhole e \<and> m_drivenWhole e then []
      else if \<not> anyU \<and> \<not> anyD then
        [v3warn nodep UNDRIVEN (''Signal is not driven, nor used: '' @ prettyName nodep)]
      else
        (if \<not> m_usedWhole e \<and> \<not> anyU then
           [v3warn nodep UNUSED (''Signal is not used: '' @ prettyName nodep)]
         else if \<not> m_usedWhole e then
           [v3warn nodep UNUSED (''Bits of signal are not used: '' @ prettyName nodep
                                  @ bitNames e FLAG_USED)]
         else [])
        @
        (if \<not> m_drivenWhole e \<and> \<not> anyD then
           [v3warn nodep UNDRIVEN (''Signal is not driven: '' @ prettyName nodep)]
         else if \<not> m_drivenWhole e then
           [v3warn nodep UNDRIVEN (''Bits of signal are not driven: '' @ prettyName nodep
                                    @ bitNames e FLAG_DRIVEN)]
         else []))"

text \<open>\<^verbatim>\<open>reportViolations\<close> returns the warnings it gives and the entry as it leaves it.\<close>

definition reportViolations :: "UndrivenVarEntry \<Rightarrow> diag list \<times> UndrivenVarEntry" where
  "reportViolations e =
     (let nodep = m_varp e in
      if \<not> isParam nodep \<and> \<not> isGenVar nodep then
        (case combine_loop e 0 (True, True, m_usedWhole e, m_drivenWhole e) of
           (allU, allD, anyU, anyD) \<Rightarrow>
             let e1 = (if allU then e\<lparr>m_usedWhole := True\<rparr> else e);
                 e2 = (if allD then e1\<lparr>m_drivenWhole := True\<rparr> else e1)
             in (testResults e2 anyU anyD, e2))
      else ([], e))"

subsection \<open>The tree\<close>

text \<open>
  What the pass reads of a constant's \<^verbatim>\<open>V3Number\<close>: \<^verbatim>\<open>isFourState()\<close> and the 32 bits
  that \<^verbatim>\<open>toUInt()\<close> returns.
\<close>

record V3Number =
  isFourState :: bool
  toUInt :: "32 word"

text \<open>
  The node kinds the visitor tells apart. A declaration carries the \<^verbatim>\<open>AstVar\<close> and its
  children; a reference carries \<^verbatim>\<open>varp()\<close> and \<^verbatim>\<open>lvalue()\<close>; a select carries
  \<^verbatim>\<open>fromp()\<close>, \<^verbatim>\<open>lsbp()\<close>, \<^verbatim>\<open>widthp()\<close> and its own \<^verbatim>\<open>width()\<close>. Every other
  kind is \<open>AstNodeOther\<close> with its children.
\<close>

datatype AstNode =
    AstVarDecl AstVar "AstNode list"
  | AstArraySel "AstNode list"
  | AstSel AstNode AstNode AstNode int
  | AstVarRef AstVar bool
  | AstCoverDecl "AstNode list"
  | AstCoverInc "AstNode list"
  | AstCoverToggle "AstNode list"
  | AstTraceDecl "AstNode list"
  | AstTraceInc "AstNode list"
  | AstConst V3Number
  | AstNodeOther "AstNode list"

fun castVarRef :: "AstNode \<Rightarrow> (AstVar \<times> bool) option" where
  "castVarRef (AstVarRef varp lvalue) = Some (varp, lvalue)"
| "castVarRef _ = None"

fun castConst :: "AstNode \<Rightarrow> V3Number option" where
  "castConst (AstConst num) = Some num"
| "castConst _ = None"

subsection \<open>UndrivenVisitor\<close>

text \<open>
  The visitor's state: \<open>user1p\<close> is the \<^verbatim>\<open>user1p()\<close> slot of every \<^verbatim>\<open>AstVar\<close>
  (\<open>None\<close> for a null pointer, \<open>Some p\<close> for a pointer to the entry at position \<open>p\<close> of
  \<open>m_entryps\<close>). The entries live in \<open>m_entryps\<close>, in the order of their creation.
\<close>

record UndrivenVisitor =
  user1p :: "AstVar \<rightharpoonup> nat"
  m_entryps :: "UndrivenVarEntry list"

definition getEntryp :: "AstVar \<Rightarrow> UndrivenVisitor \<Rightarrow> error + (nat \<times> UndrivenVisitor)" where
  "getEntryp nodep st =
     (case user1p st nodep of
        None \<Rightarrow>
          (case new_UndrivenVarEntry nodep of
             Inl err \<Rightarrow> Inl err
           | Inr entry \<Rightarrow>
               Inr (length (m_entryps st),
                    st\<lparr> m_entryps := m_entryps st @ [entry],
                        user1p := (user1p st)(nodep \<mapsto> length (m_entryps st)) \<rparr>))
      | Some entryp \<Rightarrow>
          if entryp < length (m_entryps st) then Inr (entryp, st) else Inl DanglingPointer)"

text \<open>A call \<^verbatim>\<open>entryp->f()\<close> of a method that cannot fail, and one of a method that can.\<close>

definition call :: "nat \<Rightarrow> (UndrivenVarEntry \<Rightarrow> UndrivenVarEntry) \<Rightarrow> UndrivenVisitor \<Rightarrow> UndrivenVisitor" where
  "call entryp f st = st\<lparr> m_entryps := (m_entryps st)[entryp := f (m_entryps st ! entryp)] \<rparr>"

definition call_err :: "nat \<Rightarrow> (UndrivenVarEntry \<Rightarrow> error + UndrivenVarEntry) \<Rightarrow> UndrivenVisitor
    \<Rightarrow> error + UndrivenVisitor" where
  "call_err entryp f st =
     (case f (m_entryps st ! entryp) of
        Inl err \<Rightarrow> Inl err
      | Inr e' \<Rightarrow> Inr (st\<lparr> m_entryps := (m_entryps st)[entryp := e'] \<rparr>))"

text \<open>
  The \<^verbatim>\<open>visit\<close> methods, chosen by the kind of the node as \<^verbatim>\<open>accept\<close> does, and
  \<^verbatim>\<open>iterateChildren\<close>. In \<^verbatim>\<open>visit(AstSel*)\<close> the \<^verbatim>\<open>unsigned\<close> result of \<^verbatim>\<open>toUInt()\<close>
  is stored in an \<^verbatim>\<open>int\<close>, which reads the 32 bits as two's complement.
\<close>

fun visit :: "AstNode \<Rightarrow> UndrivenVisitor \<Rightarrow> error + UndrivenVisitor"
  and iterateChildren :: "AstNode list \<Rightarrow> UndrivenVisitor \<Rightarrow> error + UndrivenVisitor" where
  "visit (AstVarDecl nodep children) st =
     (case getEntryp nodep st of
        Inl err \<Rightarrow> Inl err
      | Inr (entryp, st1) \<Rightarrow>
          let st2 = (if isInput nodep \<or> isSigPublic nodep \<or> isSigUserRWPublic nodep
                     then call entryp drivenWhole st1 else st1);
              st3 = (if isOutput nodep \<or> isSigPublic nodep \<or> isSigUserRWPublic nodep
                        \<or> isSigUserRdPublic nodep
                     then call entryp usedWhole st2 else st2)
          in iterateChildren children st3)"
| "visit (AstArraySel children) st = iterateChildren children st"
| "visit (AstSel fromp lsbp widthp w) st =
     (if castVarRef fromp \<noteq> None \<and> castConst lsbp \<noteq> None
         \<and> \<not> isFourState (the (castConst lsbp)) then
        (case getEntryp (fst (the (castVarRef fromp))) st of
           Inl err \<Rightarrow> Inl err
         | Inr (entryp, st1) \<Rightarrow>
             let lsb_int = sint (toUInt (the (castConst lsbp))) in
             if snd (the (castVarRef fromp))
             then call_err entryp (\<lambda>e. drivenBit e lsb_int w) st1
             else call_err entryp (\<lambda>e. usedBit e lsb_int w) st1)
      else
        (case visit fromp st of
           Inl err \<Rightarrow> Inl err
         | Inr st1 \<Rightarrow>
             (case visit lsbp st1 of
                Inl err \<Rightarrow> Inl err
              | Inr st2 \<Rightarrow> visit widthp st2)))"
| "visit (AstVarRef varp lvalue) st =
     (case getEntryp varp st of
        Inl err \<Rightarrow> Inl err
      | Inr (entryp, st1) \<Rightarrow>
          if lvalue then Inr (call entryp drivenWhole st1)
          else Inr (call entryp usedWhole st1))"
| "visit (AstCoverDecl children) st = Inr st"
| "visit (AstCoverInc children) st = Inr st"
| "visit (AstCoverToggle children) st = Inr st"
| "visit (AstTraceDecl children) st = Inr st"
| "visit (AstTraceInc children) st = Inr st"
| "visit (AstConst num) st = Inr st"
| "visit (AstNodeOther children) st = iterateChildren children st"
| "iterateChildren [] st = Inr st"
| "iterateChildren (child # children) st =
     (case visit child st of
        Inl err \<Rightarrow> Inl err
      | Inr st1 \<Rightarrow> iterateChildren children st1)"

text \<open>
  Modelled from the spec: \<^verbatim>\<open>AstNode::user1ClearTree\<close> is declared outside this file; the
  table from declarations to entries is reset to empty at the start of each run, so every
  \<^verbatim>\<open>user1p()\<close> slot reads as null afterwards, whatever an earlier pass left there.
\<close>

definition user1ClearTree :: "(AstVar \<rightharpoonup> nat) \<Rightarrow> (AstVar \<rightharpoonup> nat)" where
  "user1ClearTree u = Map.empty"

text \<open>The constructor clears the slots and visits the netlist.\<close>

definition new_UndrivenVisitor :: "(AstVar \<rightharpoonup> nat) \<Rightarrow> AstNode \<Rightarrow> error + UndrivenVisitor" where
  "new_UndrivenVisitor u nodep = visit nodep \<lparr> user1p = user1ClearTree u, m_entryps = [] \<rparr>"

text \<open>The destructor's loop over \<^verbatim>\<open>m_entryps\<close>, collecting the warnings given.\<close>

fun reportAll :: "UndrivenVarEntry list \<Rightarrow> diag list" where
  "reportAll [] = []"
| "reportAll (entry # entries) = fst (reportViolations entry) @ reportAll entries"

text \<open>
  \<^verbatim>\<open>V3Undriven::undrivenAll\<close>, from the slots as it finds them to the warnings it gives
  and the slots as it leaves them.
\<close>

definition undrivenAll :: "(AstVar \<rightharpoonup> nat) \<Rightarrow> AstNode \<Rightarrow> error + (diag list \<times> (AstVar \<rightharpoonup> nat))" where
  "undrivenAll u nodep =
     (case new_UndrivenVisitor u nodep of
        Inl err \<Rightarrow> Inl err
      | Inr st \<Rightarrow> Inr (reportAll (m_entryps st), user1p st))"

subsection \<open>Names for what \<^verbatim>\<open>reportViolations\<close> computes\<close>

text \<open>
  The values of \<^verbatim>\<open>allU\<close>, \<^verbatim>\<open>allD\<close>, \<^verbatim>\<open>anyU\<close> and \<^verbatim>\<open>anyD\<close> when the loop of
  \<^verbatim>\<open>reportViolations\<close> is left (lemma \<open>combine_loop_result\<close>), and the entry after the two
  assignments that follow the loop.
\<close>

definition allUsed :: "UndrivenVarEntry \<Rightarrow> bool" where
  "allUsed e = list_all (usedFlag e) [0..<length (m_flags e) div 2]"

definition allDriven :: "UndrivenVarEntry \<Rightarrow> bool" where
  "allDriven e = list_all (drivenFlag e) [0..<length (m_flags e) div 2]"

definition anyUsed :: "UndrivenVarEntry \<Rightarrow> bool" where
  "anyUsed e = (m_usedWhole e \<or> list_ex (usedFlag e) [0..<length (m_flags e) div 2])"

definition anyDriven :: "UndrivenVarEntry \<Rightarrow> bool" where
  "anyDriven e = (m_drivenWhole e \<or> list_ex (drivenFlag e) [0..<length (m_flags e) div 2])"

definition promoted :: "UndrivenVarEntry \<Rightarrow> UndrivenVarEntry" where
  "promoted e = e\<lparr> m_usedWhole := m_usedWhole e \<or> allUsed e,
                    m_drivenWhole := m_drivenWhole e \<or> allDriven e \<rparr>"

subsection \<open>Names for what the traversal does\<close>

text \<open>
  The nodes that \<^verbatim>\<open>accept\<close> is called on when the visitor is started on a node, in the
  order of the calls: the node itself, and below it what the \<^verbatim>\<open>visit\<close> method of its kind
  iterates over.
\<close>

fun reached :: "AstNode \<Rightarrow> AstNode list" where
  "reached (AstVarDecl nodep children) =
     AstVarDecl nodep children # concat (map reached children)"
| "reached (AstArraySel children) = AstArraySel children # concat (map reached children)"
| "reached (AstSel fromp lsbp widthp w) =
     AstSel fromp lsbp widthp w #
       (if castVarRef fromp \<noteq> None \<and> castConst lsbp \<noteq> None
           \<and> \<not> isFourState (the (castConst lsbp))
        then [] else reached fromp @ reached lsbp @ reached widthp)"
| "reached (AstNodeOther children) = AstNodeOther children # concat (map reached children)"
| "reached nodep = [nodep]"

text \<open>
  What a declaration does to the whole flags: \<open>declFlag True\<close> is the condition under which
  \<^verbatim>\<open>visit(AstVar*)\<close> calls \<^verbatim>\<open>drivenWhole()\<close>, \<open>declFlag False\<close> the one for
  \<^verbatim>\<open>usedWhole()\<close>. In the same way \<open>wholeFlag\<close> and \<open>bitFlag\<close> read the driven side of
  an entry for \<open>True\<close> (an lvalue) and the used side for \<open>False\<close>.
\<close>

definition declFlag :: "bool \<Rightarrow> AstVar \<Rightarrow> bool" where
  "declFlag lvalue nodep =
     (if lvalue then isInput nodep \<or> isSigPublic nodep \<or> isSigUserRWPublic nodep
      else isOutput nodep \<or> isSigPublic nodep \<or> isSigUserRWPublic nodep
             \<or> isSigUserRdPublic nodep)"

definition wholeFlag :: "bool \<Rightarrow> UndrivenVarEntry \<Rightarrow> bool" where
  "wholeFlag lvalue e = (if lvalue then m_drivenWhole e else m_usedWhole e)"

definition bitFlag :: "bool \<Rightarrow> UndrivenVarEntry \<Rightarrow> nat \<Rightarrow> bool" where
  "bitFlag lvalue e k = (if lvalue then drivenFlag e k else usedFlag e k)"

text \<open>
  A node that refers to the signal \<open>v\<close> as an lvalue (\<open>True\<close>) or as an rvalue (\<open>False\<close>):
  a reference to it, or a select from a reference to it.
\<close>

fun refersTo :: "bool \<Rightarrow> AstVar \<Rightarrow> AstNode \<Rightarrow> bool" where
  "refersTo lvalue v (AstVarRef varp lv) = (varp = v \<and> lv = lvalue)"
| "refersTo lvalue v (AstSel fromp lsbp widthp w) = (castVarRef fromp = Some (v, lvalue))"
| "refersTo lvalue v nodep = False"

text \<open>The entry of a signal in a state of the visitor, if it has one.\<close>

definition entryOf :: "UndrivenVisitor \<Rightarrow> AstVar \<Rightarrow> UndrivenVarEntry option" where
  "entryOf st v =
     (case user1p st v of
        None \<Rightarrow> None
      | Some p \<Rightarrow> if p < length (m_entryps st) then Some (m_entryps st ! p) else None)"

text \<open>
  The invariant of the visitor's state: every slot points to the entry of its own signal,
  every entry is pointed to by the slot of its signal, and has two flags for each bit.
  The order in which the entries and the states grow.
\<close>

definition wf_state :: "UndrivenVisitor \<Rightarrow> bool" where
  "wf_state st =
     ((\<forall>v p. user1p st v = Some p \<longrightarrow>
          p < length (m_entryps st) \<and> m_varp (m_entryps st ! p) = v)
      \<and> (\<forall>p < length (m_entryps st).
          user1p st (m_varp (m_entryps st ! p)) = Some p
          \<and> int (length (m_flags (m_entryps st ! p))) = width (m_varp (m_entryps st ! p)) * 2))"

definition le_entry :: "UndrivenVarEntry \<Rightarrow> UndrivenVarEntry \<Rightarrow> bool" where
  "le_entry e e' =
     (m_varp e' = m_varp e \<and> length (m_flags e') = length (m_flags e)
      \<and> (m_usedWhole e \<longrightarrow> m_usedWhole e') \<and> (m_drivenWhole e \<longrightarrow> m_drivenWhole e')
      \<and> (\<forall>i < length (m_flags e). m_flags e ! i \<longrightarrow> m_flags e' ! i))"

definition le_state :: "UndrivenVisitor \<Rightarrow> UndrivenVisitor \<Rightarrow> bool" where
  "le_state st st' =
     (length (m_entryps st) \<le> length (m_entryps st')
      \<and> (\<forall>p < length (m_entryps st). le_entry (m_entryps st ! p) (m_entryps st' ! p))
      \<and> (\<forall>v p. user1p st v = Some p \<longrightarrow> user1p st' v = Some p))"

text \<open>
  What the \<^verbatim>\<open>visit\<close> method of a node does itself, apart from iterating over children,
  and these steps in a row. Lemma \<open>visit_runActions\<close> shows that visiting a node is taking
  the steps of the nodes it reaches, in their order.
\<close>

fun action :: "AstNode \<Rightarrow> UndrivenVisitor \<Rightarrow> error + UndrivenVisitor" where
  "action (AstVarDecl nodep children) st =
     (case getEntryp nodep st of
        Inl err \<Rightarrow> Inl err
      | Inr (entryp, st1) \<Rightarrow>
          let st2 = (if isInput nodep \<or> isSigPublic nodep \<or> isSigUserRWPublic nodep
                     then call entryp drivenWhole st1 else st1);
              st3 = (if isOutput nodep \<or> isSigPublic nodep \<or> isSigUserRWPublic nodep
                        \<or> isSigUserRdPublic nodep
                     then call entryp usedWhole st2 else st2)
          in Inr st3)"
| "action (AstSel fromp lsbp widthp w) st =
     (if castVarRef fromp \<noteq> None \<and> castConst lsbp \<noteq> None
         \<and> \<not> isFourState (the (castConst lsbp)) then
        (case getEntryp (fst (the (castVarRef fromp))) st of
           Inl err \<Rightarrow> Inl err
         | Inr (entryp, st1) \<Rightarrow>
             let lsb_int = sint (toUInt (the (castConst lsbp))) in
             if snd (the (castVarRef fromp))
             then call_err entryp (\<lambda>e. drivenBit e lsb_int w) st1
             else call_err entryp (\<lambda>e. usedBit e lsb_int w) st1)
      else Inr st)"
| "action (AstVarRef varp lvalue) st =
     (case getEntryp varp st of
        Inl err \<Rightarrow> Inl err
      | Inr (entryp, st1) \<Rightarrow>
          if lvalue then Inr (call entryp drivenWhole st1)
          else Inr (call entryp usedWhole st1))"
| "action nodep st = Inr st"

fun runActions :: "AstNode list \<Rightarrow> UndrivenVisitor \<Rightarrow> error + UndrivenVisitor" where
  "runActions [] st = Inr st"
| "runActions (nodep # nodeps) st =
     (case action nodep st of
        Inl err \<Rightarrow> Inl err
      | Inr st1 \<Rightarrow> runActions nodeps st1)"

text \<open>The declaration nodes of a signal.\<close>

fun isDeclOf :: "AstVar \<Rightarrow> AstNode \<Rightarrow> bool" where
  "isDeclOf v (AstVarDecl nodep children) = (nodep = v)"
| "isDeclOf v nodep = False"

text \<open>
  The entry as the constructor leaves it, and the entry that \<^verbatim>\<open>getEntryp\<close> hands out for a
  signal: the one it has, or a new one.
\<close>

definition freshEntry :: "AstVar \<Rightarrow> UndrivenVarEntry" where
  "freshEntry v = \<lparr> m_varp = v, m_usedWhole = False, m_drivenWhole = False,
                    m_flags = replicate (nat (width v * FLAGS_PER_BIT)) False \<rparr>"

definition baseEntry :: "UndrivenVisitor \<Rightarrow> AstVar \<Rightarrow> UndrivenVarEntry" where
  "baseEntry st v = (case entryOf st v of None \<Rightarrow> freshEntry v | Some e \<Rightarrow> e)"

text \<open>
  A bound on one side of a signal's entry: the whole flag is set only if the declaration
  sets it, and no bit flag is set.
\<close>

definition entryBound :: "bool \<Rightarrow> AstVar \<Rightarrow> UndrivenVarEntry \<Rightarrow> bool" where
  "entryBound lvalue v e =
     ((wholeFlag lvalue e \<longrightarrow> declFlag lvalue v)
      \<and> \<not> list_ex (bitFlag lvalue e) [0..<length (m_flags e) div 2])"

definition flagBound :: "bool \<Rightarrow> UndrivenVisitor \<Rightarrow> AstVar \<Rightarrow> bool" where
  "flagBound lvalue st v =
     (case entryOf st v of None \<Rightarrow> True | Some e \<Rightarrow> entryBound lvalue v e)"

subsection \<open>Inputs for the examples\<close>

text \<open>
  A signal that is no port, not public, no parameter and no generate variable, with lsb
  offset 0; a known constant; a freshly constructed entry with given flags.
\<close>

definition plainVar :: "nat \<Rightarrow> string \<Rightarrow> int \<Rightarrow> bool \<Rightarrow> AstVar" where
  "plainVar a n w le =
     \<lparr> ident = a, prettyName = n, width = w, lsb = 0, littleEndian = le,
       isParam = False, isGenVar = False, isInput = False, isOutput = False,
       isSigPublic = False, isSigUserRWPublic = False, isSigUserRdPublic = False \<rparr>"

definition constNode :: "32 word \<Rightarrow> AstNode" where
  "constNode n = AstConst \<lparr> isFourState = False, toUInt = n \<rparr>"

definition entryWith :: "AstVar \<Rightarrow> bool \<Rightarrow> bool \<Rightarrow> bool list \<Rightarrow> UndrivenVarEntry" where
  "entryWith v uw dw fl = \<lparr> m_varp = v, m_usedWhole = uw, m_drivenWhole = dw, m_flags = fl \<rparr>"

subsection \<open>Facts about the entry\<close>

lemma all_from_split:
  "b < n \<Longrightarrow> (\<forall>k. b \<le> k \<and> k < n \<longrightarrow> P k) = (P b \<and> (\<forall>k. b + 1 \<le> k \<and> k < n \<longrightarrow> P k))" for b :: nat
proof -
  assume "b < n"
  have eq: "\<And>k. (b \<le> k) = (k = b \<or> b + 1 \<le> k)" by arith
  show ?thesis using \<open>b < n\<close> by (simp only: eq) blast
qed

lemma ex_from_split:
  "b < n \<Longrightarrow> (\<exists>k. b \<le> k \<and> k < n \<and> P k) = (P b \<or> (\<exists>k. b + 1 \<le> k \<and> k < n \<and> P k))" for b :: nat
proof -
  assume "b < n"
  have eq: "\<And>k. (b \<le> k) = (k = b \<or> b + 1 \<le> k)" by arith
  show ?thesis using \<open>b < n\<close> by (simp only: eq) blast
qed

lemma combine_loop_eq:
  "combine_loop e b (aU, aD, nU, nD) =
     (aU \<and> (\<forall>k. b \<le> k \<and> k < length (m_flags e) div 2 \<longrightarrow> usedFlag e k),
      aD \<and> (\<forall>k. b \<le> k \<and> k < length (m_flags e) div 2 \<longrightarrow> drivenFlag e k),
      nU \<or> (\<exists>k. b \<le> k \<and> k < length (m_flags e) div 2 \<and> usedFlag e k),
      nD \<or> (\<exists>k. b \<le> k \<and> k < length (m_flags e) div 2 \<and> drivenFlag e k))"
proof (induction e b "(aU, aD, nU, nD)" arbitrary: aU aD nU nD rule: combine_loop.induct)
  case (1 e bitn allU allD anyU anyD)
  show ?case
  proof (cases "bitn < length (m_flags e) div 2")
    case True
    have step: "combine_loop e bitn (allU, allD, anyU, anyD) =
        combine_loop e (bitn + 1) (allU \<and> usedFlag e bitn, allD \<and> drivenFlag e bitn,
           anyU \<or> usedFlag e bitn, anyD \<or> drivenFlag e bitn)"
      using True by (subst combine_loop.simps) simp
    show ?thesis
      unfolding step "1.hyps" [OF True]
        all_from_split [OF True, of "usedFlag e"] all_from_split [OF True, of "drivenFlag e"]
        ex_from_split [OF True, of "usedFlag e"] ex_from_split [OF True, of "drivenFlag e"]
      by blast
  next
    case False
    have "combine_loop e bitn (allU, allD, anyU, anyD) = (allU, allD, anyU, anyD)"
      using False by (subst combine_loop.simps) simp
    then show ?thesis
      using False by auto
  qed
qed

lemma combine_loop_result:
  "combine_loop e 0 (True, True, m_usedWhole e, m_drivenWhole e) =
     (allUsed e, allDriven e, anyUsed e, anyDriven e)"
  by (simp add: combine_loop_eq allUsed_def allDriven_def anyUsed_def anyDriven_def
      list_all_iff list_ex_iff Ball_def Bex_def)

lemma reportViolations_unfold:
  "reportViolations e =
     (if \<not> isParam (m_varp e) \<and> \<not> isGenVar (m_varp e)
      then (testResults (promoted e) (anyUsed e) (anyDriven e), promoted e)
      else ([], e))"
  by (cases "allUsed e"; cases "allDriven e")
     (simp_all add: reportViolations_def combine_loop_result promoted_def Let_def)


lemma reportViolations_whole_both:
  assumes "m_usedWhole e" "m_drivenWhole e"
  shows "fst (reportViolations e) = []"
proof (cases "\<not> isParam (m_varp e) \<and> \<not> isGenVar (m_varp e)")
  case True
  obtain allU allD anyU anyD where
    c: "combine_loop e 0 (True, True, m_usedWhole e, m_drivenWhole e) = (allU, allD, anyU, anyD)"
    by (metis prod_cases4)
  show ?thesis
    using True assms c by (simp add: reportViolations_def testResults_def)
next
  case False
  then show ?thesis
    by (auto simp: reportViolations_def)
qed

lemma nat_str_nonempty: "nat_str n \<noteq> []"
  by (subst nat_str.simps) simp

lemma cvtToStr_nonempty: "cvtToStr i \<noteq> []"
  by (simp add: cvtToStr_def nat_str_nonempty)

lemma runText_nonempty: "runText v l m \<noteq> []"
  by (simp add: runText_def cvtToStr_nonempty)

lemma bitNames_loop_keeps:
  "bits \<noteq> [] \<Longrightarrow> bitNames_loop e index bitn prev msb bits \<noteq> []"
proof (induction e index bitn prev msb bits rule: bitNames_loop.induct)
  case (1 e index bitn prev msb bits)
  show ?case
    using "1.IH" "1.prems"
    by (subst bitNames_loop.simps) (simp add: runText_nonempty)
qed

lemma bitNames_loop_open_run:
  "prev \<Longrightarrow> - 1 \<le> bitn \<Longrightarrow> bitNames_loop e index bitn prev msb bits \<noteq> []"
proof (induction e index bitn prev msb bits rule: bitNames_loop.induct)
  case (1 e index bitn prev msb bits)
  show ?case
  proof (cases "bitn \<ge> 0 \<and> \<not> m_flags e ! nat (bitn * FLAGS_PER_BIT + index)")
    case True
    then have "- 1 \<le> bitn - 1" by simp
    then show ?thesis
      using True "1.prems" "1.IH"(2)
      by (subst bitNames_loop.simps) simp
  next
    case False
    have "bitNames_loop e index bitn prev msb bits =
        bitNames_loop e index (bitn - 1) False msb
          ((if bits \<noteq> '''' then bits @ '','' else bits) @ runText (m_varp e) (bitn + 1) msb)"
      using False "1.prems" by (subst bitNames_loop.simps) auto
    then show ?thesis
      by (simp add: bitNames_loop_keeps runText_nonempty)
  qed
qed

lemma bitNames_loop_unset_bit:
  "0 \<le> k \<Longrightarrow> k \<le> bitn \<Longrightarrow> \<not> m_flags e ! nat (k * FLAGS_PER_BIT + index)
     \<Longrightarrow> bitNames_loop e index bitn prev msb bits \<noteq> []"
proof (induction e index bitn prev msb bits rule: bitNames_loop.induct)
  case (1 e index bitn prev msb bits)
  show ?case
  proof (cases "k = bitn")
    case True
    have "bitNames_loop e index bitn prev msb bits =
        bitNames_loop e index (bitn - 1) True (if prev then msb else bitn) bits"
      using True "1.prems" by (subst bitNames_loop.simps) auto
    then show ?thesis
      using "1.prems" True by (simp add: bitNames_loop_open_run)
  next
    case False
    then have k: "k \<le> bitn - 1" using "1.prems" by simp
    show ?thesis
      using "1.prems" k "1.IH"
      by (subst bitNames_loop.simps) auto
  qed
qed

lemma bitNames_not_empty_brackets:
  assumes "k < length (m_flags e) div 2" "\<not> m_flags e ! (k * 2 + nat index)" "0 \<le> index"
  shows "bitNames e index \<noteq> ''[]''"
proof -
  have "nat (int k * FLAGS_PER_BIT + index) = k * 2 + nat index"
    using assms(3) by (simp add: nat_add_distrib nat_mult_distrib)
  then have "bitNames_loop e index (int (length (m_flags e) div 2) - 1) False 0 '''' \<noteq> []"
    using assms by (intro bitNames_loop_unset_bit [of "int k"]) auto
  then show ?thesis
    by (simp add: bitNames_def)
qed

lemma no_flags_anyUsed:
  assumes "True \<notin> set (m_flags e)"
  shows "list_ex (usedFlag e) [0..<length (m_flags e) div 2] = False"
    and "list_ex (drivenFlag e) [0..<length (m_flags e) div 2] = False"
proof -
  have "\<And>i. i < length (m_flags e) \<Longrightarrow> \<not> m_flags e ! i"
    using assms by (metis (full_types) nth_mem)
  then show "list_ex (usedFlag e) [0..<length (m_flags e) div 2] = False"
    and "list_ex (drivenFlag e) [0..<length (m_flags e) div 2] = False"
    by (auto simp: list_ex_iff usedFlag_def drivenFlag_def)
qed

lemma no_flags_allUsed:
  assumes "True \<notin> set (m_flags e)" "2 \<le> length (m_flags e)"
  shows "\<not> allUsed e" and "\<not> allDriven e"
proof -
  have "\<not> m_flags e ! 0" "\<not> m_flags e ! 1"
    using assms by (metis (full_types) nth_mem less_le_trans zero_less_numeral one_less_numeral_iff semiring_norm(76))+
  moreover have "0 < length (m_flags e) div 2"
    using assms(2) by simp
  ultimately show "\<not> allUsed e" and "\<not> allDriven e"
    by (auto simp: allUsed_def allDriven_def list_all_iff usedFlag_def drivenFlag_def
        intro!: bexI [of _ 0])
qed

text \<open>
  What \<^verbatim>\<open>usedBit\<close> and \<^verbatim>\<open>drivenBit\<close> do when the first bit is not negative and no sum
  or product leaves the \<^verbatim>\<open>int\<close> range: the bits of the range that the signal has are marked,
  the others are dropped.
\<close>

lemma markBit_negative:
  "markBit_loop flag e (- 1) 1 0 = Inl OutOfBounds" if "flag = 0 \<or> flag = 1"
  using that
  by (subst markBit_loop.simps) (auto simp: int_ok_def bitNumOk_def setFlag_def)

lemma markBit_loop_in_range:
  assumes "flag = 0 \<or> flag = 1" "even (length (m_flags e))" "0 \<le> bitn" "0 \<le> i"
    and "bitn + w \<le> 2 ^ 30"
  shows "\<exists>e'. markBit_loop flag e bitn w i = Inr e'
      \<and> m_varp e' = m_varp e \<and> m_usedWhole e' = m_usedWhole e
      \<and> m_drivenWhole e' = m_drivenWhole e \<and> length (m_flags e') = length (m_flags e)
      \<and> (\<forall>j < length (m_flags e). m_flags e' ! j =
            (m_flags e ! j \<or> (\<exists>k. i \<le> k \<and> k < w \<and> int j = (bitn + k) * 2 + flag)))"
  using assms
proof (induction flag e bitn w i rule: markBit_loop.induct)
  case (1 flag e bitn w i)
  show ?case
  proof (cases "i < w")
    case False
    then show ?thesis
      by (subst markBit_loop.simps) auto
  next
    case True
    have ok: "int_ok (bitn + i)" "int_ok ((bitn + i) * 2)"
      using True "1.prems" by (auto simp: int_ok_def)
    show ?thesis
    proof (cases "(bitn + i) * 2 < int (length (m_flags e))")
      case inside: True
      define idx where "idx = nat ((bitn + i) * 2 + flag)"
      obtain m where m: "length (m_flags e) = 2 * m"
        using "1.prems"(2) by (auto elim: evenE)
      have "bitn + i < int m"
        using inside m by simp
      then have "(bitn + i) * 2 + flag < int (length (m_flags e))" "0 \<le> (bitn + i) * 2 + flag"
        using m "1.prems"(1,3,4) by auto
      then have idx: "idx < length (m_flags e)" "int idx = (bitn + i) * 2 + flag"
        by (simp_all add: idx_def)
      define e1 where "e1 = e\<lparr>m_flags := (m_flags e)[idx := True]\<rparr>"
      have set: "setFlag e ((bitn + i) * FLAGS_PER_BIT + flag) = Inr e1"
        using idx "1.prems"(1-4) by (auto simp: setFlag_def e1_def idx_def)
      have step: "markBit_loop flag e bitn w i = markBit_loop flag e1 bitn w (i + 1)"
        using True ok inside set by (subst markBit_loop.simps) (simp add: bitNumOk_def)
      have "bitNumOk e (bitn + i) = Inr True"
        using ok inside by (simp add: bitNumOk_def)
      from "1.IH"(1) [OF True _ this _ set] ok "1.prems"
      obtain e' where e': "markBit_loop flag e1 bitn w (i + 1) = Inr e'"
        "m_varp e' = m_varp e1" "m_usedWhole e' = m_usedWhole e1"
        "m_drivenWhole e' = m_drivenWhole e1" "length (m_flags e') = length (m_flags e1)"
        "\<forall>j < length (m_flags e1). m_flags e' ! j =
            (m_flags e1 ! j \<or> (\<exists>k. i + 1 \<le> k \<and> k < w \<and> int j = (bitn + k) * 2 + flag))"
        by (auto simp: e1_def)
      have "\<forall>j < length (m_flags e). m_flags e' ! j =
            (m_flags e ! j \<or> (\<exists>k. i \<le> k \<and> k < w \<and> int j = (bitn + k) * 2 + flag))"
      proof (intro allI impI)
        fix j assume j: "j < length (m_flags e)"
        have a: "m_flags e1 ! j = (m_flags e ! j \<or> j = idx)"
          using j by (cases "j = idx") (simp_all add: e1_def)
        have b: "(\<exists>k. i \<le> k \<and> k < w \<and> int j = (bitn + k) * 2 + flag)
            = (j = idx \<or> (\<exists>k. i + 1 \<le> k \<and> k < w \<and> int j = (bitn + k) * 2 + flag))"
        proof -
          have "\<And>k. (i \<le> k) = (k = i \<or> i + 1 \<le> k)" by arith
          then show ?thesis
            using True idx(2) by (simp only:) (metis int_int_eq)
        qed
        show "m_flags e' ! j =
            (m_flags e ! j \<or> (\<exists>k. i \<le> k \<and> k < w \<and> int j = (bitn + k) * 2 + flag))"
          using e'(6) j a b by (simp add: e1_def)
      qed
      then show ?thesis
        using step e' by (simp add: e1_def)
    next
      case outside: False
      have step: "markBit_loop flag e bitn w i = markBit_loop flag e bitn w (i + 1)"
        using True ok outside by (subst markBit_loop.simps) (simp add: bitNumOk_def)
      have nok: "bitNumOk e (bitn + i) = Inr False"
        using ok outside by (simp add: bitNumOk_def)
      from "1.IH"(2) [OF True _ nok] ok "1.prems"
      obtain e' where e': "markBit_loop flag e bitn w (i + 1) = Inr e'"
        "m_varp e' = m_varp e" "m_usedWhole e' = m_usedWhole e"
        "m_drivenWhole e' = m_drivenWhole e" "length (m_flags e') = length (m_flags e)"
        "\<forall>j < length (m_flags e). m_flags e' ! j =
            (m_flags e ! j \<or> (\<exists>k. i + 1 \<le> k \<and> k < w \<and> int j = (bitn + k) * 2 + flag))"
        by auto
      have "\<forall>j < length (m_flags e). m_flags e' ! j =
            (m_flags e ! j \<or> (\<exists>k. i \<le> k \<and> k < w \<and> int j = (bitn + k) * 2 + flag))"
      proof (intro allI impI)
        fix j assume j: "j < length (m_flags e)"
        have "int j \<noteq> (bitn + i) * 2 + flag"
          using j outside "1.prems"(1) by auto
        then have "(\<exists>k. i \<le> k \<and> k < w \<and> int j = (bitn + k) * 2 + flag)
            = (\<exists>k. i + 1 \<le> k \<and> k < w \<and> int j = (bitn + k) * 2 + flag)"
          by (metis add.commute add_le_cancel_left le_less not_less zless_add1_eq order_le_less)
        then show "m_flags e' ! j =
            (m_flags e ! j \<or> (\<exists>k. i \<le> k \<and> k < w \<and> int j = (bitn + k) * 2 + flag))"
          using e'(6) j by simp
      qed
      then show ?thesis
        using step e' by simp
    qed
  qed
qed

lemma markBit_flags_in_range:
  assumes "flag = 0 \<or> flag = 1" "even (length (m_flags e))" "0 \<le> bitn" "bitn + w \<le> 2 ^ 30"
  shows "\<exists>e'. markBit_loop flag e bitn w 0 = Inr e'
      \<and> m_varp e' = m_varp e \<and> m_usedWhole e' = m_usedWhole e
      \<and> m_drivenWhole e' = m_drivenWhole e \<and> length (m_flags e') = length (m_flags e)
      \<and> (\<forall>k < length (m_flags e) div 2.
            m_flags e' ! (k * 2 + nat flag) =
               (m_flags e ! (k * 2 + nat flag) \<or> (bitn \<le> int k \<and> int k < bitn + w))
          \<and> m_flags e' ! (k * 2 + nat (1 - flag)) = m_flags e ! (k * 2 + nat (1 - flag)))"
proof -
  from markBit_loop_in_range [OF assms(1,2,3) _ assms(4), of 0]
  obtain e' where e': "markBit_loop flag e bitn w 0 = Inr e'"
    "m_varp e' = m_varp e" "m_usedWhole e' = m_usedWhole e"
    "m_drivenWhole e' = m_drivenWhole e" "length (m_flags e') = length (m_flags e)"
    "\<forall>j < length (m_flags e). m_flags e' ! j =
       (m_flags e ! j \<or> (\<exists>k. 0 \<le> k \<and> k < w \<and> int j = (bitn + k) * 2 + flag))"
    by auto
  obtain m where m: "length (m_flags e) = 2 * m"
    using assms(2) by (auto elim: evenE)
  have "m_flags e' ! (k * 2 + nat flag) =
               (m_flags e ! (k * 2 + nat flag) \<or> (bitn \<le> int k \<and> int k < bitn + w))
      \<and> m_flags e' ! (k * 2 + nat (1 - flag)) = m_flags e ! (k * 2 + nat (1 - flag))"
    if k: "k < length (m_flags e) div 2" for k
  proof -
    have lt: "k * 2 + nat flag < length (m_flags e)" "k * 2 + nat (1 - flag) < length (m_flags e)"
      using k m assms(1) by auto
    have a: "(\<exists>k'. 0 \<le> k' \<and> k' < w \<and> int (k * 2 + nat flag) = (bitn + k') * 2 + flag)
        = (bitn \<le> int k \<and> int k < bitn + w)"
    proof
      assume "\<exists>k'. 0 \<le> k' \<and> k' < w \<and> int (k * 2 + nat flag) = (bitn + k') * 2 + flag"
      then obtain k' where "0 \<le> k'" "k' < w" "int (k * 2 + nat flag) = (bitn + k') * 2 + flag"
        by blast
      then show "bitn \<le> int k \<and> int k < bitn + w"
        using assms(1) by auto
    next
      assume "bitn \<le> int k \<and> int k < bitn + w"
      then have "0 \<le> int k - bitn \<and> int k - bitn < w
          \<and> int (k * 2 + nat flag) = (bitn + (int k - bitn)) * 2 + flag"
        using assms(1) by auto
      then show "\<exists>k'. 0 \<le> k' \<and> k' < w \<and> int (k * 2 + nat flag) = (bitn + k') * 2 + flag"
        by blast
    qed
    have b: "\<not> (\<exists>k'. 0 \<le> k' \<and> k' < w \<and> int (k * 2 + nat (1 - flag)) = (bitn + k') * 2 + flag)"
      using assms(1) by auto presburger+
    have u1: "m_flags e' ! (k * 2 + nat flag) = (m_flags e ! (k * 2 + nat flag)
        \<or> (\<exists>k'. 0 \<le> k' \<and> k' < w \<and> int (k * 2 + nat flag) = (bitn + k') * 2 + flag))"
      using e'(6) lt(1) by blast
    have u2: "m_flags e' ! (k * 2 + nat (1 - flag)) = (m_flags e ! (k * 2 + nat (1 - flag))
        \<or> (\<exists>k'. 0 \<le> k' \<and> k' < w \<and> int (k * 2 + nat (1 - flag)) = (bitn + k') * 2 + flag))"
      using e'(6) lt(2) by blast
    show ?thesis
      using u1 u2 b unfolding a by blast
  qed
  then show ?thesis
    using e' by blast
qed

lemma usedBit_in_range:
  assumes "even (length (m_flags e))" "0 \<le> bitn" "bitn + w \<le> 2 ^ 30"
  shows "\<exists>e'. usedBit e bitn w = Inr e'
      \<and> m_varp e' = m_varp e \<and> m_usedWhole e' = m_usedWhole e
      \<and> m_drivenWhole e' = m_drivenWhole e \<and> length (m_flags e') = length (m_flags e)
      \<and> (\<forall>k < length (m_flags e) div 2.
            usedFlag e' k = (usedFlag e k \<or> (bitn \<le> int k \<and> int k < bitn + w))
          \<and> drivenFlag e' k = drivenFlag e k)"
  using markBit_flags_in_range [of 0 e bitn w] assms
  by (simp add: usedBit_def usedFlag_def drivenFlag_def)

lemma drivenBit_in_range:
  assumes "even (length (m_flags e))" "0 \<le> bitn" "bitn + w \<le> 2 ^ 30"
  shows "\<exists>e'. drivenBit e bitn w = Inr e'
      \<and> m_varp e' = m_varp e \<and> m_usedWhole e' = m_usedWhole e
      \<and> m_drivenWhole e' = m_drivenWhole e \<and> length (m_flags e') = length (m_flags e)
      \<and> (\<forall>k < length (m_flags e) div 2.
            drivenFlag e' k = (drivenFlag e k \<or> (bitn \<le> int k \<and> int k < bitn + w))
          \<and> usedFlag e' k = usedFlag e k)"
  using markBit_flags_in_range [of 1 e bitn w] assms
  by (simp add: drivenBit_def usedFlag_def drivenFlag_def)

lemma cvtToStr_digit: "0 \<le> i \<Longrightarrow> i < 10 \<Longrightarrow> cvtToStr i = [''0123456789'' ! nat i]"
  by (simp add: cvtToStr_def nat_str.simps)

lemma testResults_bits_unused:
  assumes "Diag n c (''Bits of signal are not used: '' @ prettyName (m_varp e) @ r)
      \<in> set (testResults e aU aD)"
  shows "\<not> m_usedWhole e \<and> r = bitNames e FLAG_USED"
  using assms by (auto simp: testResults_def v3warn_def Let_def split: if_splits)

lemma testResults_bits_undriven:
  assumes "Diag n c (''Bits of signal are not driven: '' @ prettyName (m_varp e) @ r)
      \<in> set (testResults e aU aD)"
  shows "\<not> m_drivenWhole e \<and> r = bitNames e FLAG_DRIVEN"
  using assms by (auto simp: testResults_def v3warn_def Let_def split: if_splits)

lemma bitNames_promoted: "bitNames (promoted e) index = bitNames e index"
proof -
  have "\<And>bitn prev msb bits. bitNames_loop (promoted e) index bitn prev msb bits
      = bitNames_loop e index bitn prev msb bits"
  proof -
    fix bitn prev msb bits
    show "bitNames_loop (promoted e) index bitn prev msb bits
      = bitNames_loop e index bitn prev msb bits"
    proof (induction e index bitn prev msb bits rule: bitNames_loop.induct)
      case (1 e index bitn prev msb bits)
      show ?case
        using "1.IH"
        by (subst bitNames_loop.simps, subst (2) bitNames_loop.simps) (simp add: promoted_def)
    qed
  qed
  then show ?thesis
    by (simp add: bitNames_def promoted_def)
qed

lemma not_allUsed_bitNames:
  assumes "\<not> allUsed e"
  shows "bitNames e FLAG_USED \<noteq> ''[]''"
proof -
  obtain k where "k < length (m_flags e) div 2" "\<not> usedFlag e k"
    using assms by (auto simp: allUsed_def list_all_iff)
  then show ?thesis
    using bitNames_not_empty_brackets [of k e FLAG_USED] by (simp add: usedFlag_def)
qed

lemma not_allDriven_bitNames:
  assumes "\<not> allDriven e"
  shows "bitNames e FLAG_DRIVEN \<noteq> ''[]''"
proof -
  obtain k where "k < length (m_flags e) div 2" "\<not> drivenFlag e k"
    using assms by (auto simp: allDriven_def list_all_iff)
  then show ?thesis
    using bitNames_not_empty_brackets [of k e FLAG_DRIVEN] by (simp add: drivenFlag_def)
qed

lemma upt_8: "[0..<8] = [0, 1, 2, 3, 4, 5, 6, 7]"
  by (simp add: upt_rec)

lemma upt_10: "[0..<10] = [0, 1, 2, 3, 4, 5, 6, 7, 8, 9]"
  by (simp add: upt_rec)

text \<open>The definitions that evaluate the pass on a given tree.\<close>

lemmas pass_defs = undrivenAll_def new_UndrivenVisitor_def user1ClearTree_def getEntryp_def
  new_UndrivenVarEntry_def int_ok_def call_def call_err_def usedWhole_def drivenWhole_def
  usedBit_def drivenBit_def markBit_loop.simps bitNumOk_def setFlag_def

lemmas report_defs = reportViolations_unfold promoted_def allUsed_def allDriven_def
  anyUsed_def anyDriven_def usedFlag_def drivenFlag_def testResults_def v3warn_def
  bitNames_def bitNames_loop.simps runText_def wrap32_def cvtToStr_def nat_str.simps upt_rec

lemmas example_defs = plainVar_def constNode_def entryWith_def

subsection \<open>Facts about the traversal\<close>

lemma le_entry_refl: "le_entry e e"
  by (simp add: le_entry_def)

lemma le_entry_trans: "le_entry a b \<Longrightarrow> le_entry b c \<Longrightarrow> le_entry a c"
  by (auto simp: le_entry_def)

lemma le_state_refl: "le_state st st"
  by (simp add: le_state_def le_entry_refl)

lemma le_state_trans:
  assumes "le_state a b" "le_state b c"
  shows "le_state a c"
proof -
  have "le_entry (m_entryps a ! p) (m_entryps c ! p)" if "p < length (m_entryps a)" for p
  proof -
    have "le_entry (m_entryps a ! p) (m_entryps b ! p)" "le_entry (m_entryps b ! p) (m_entryps c ! p)"
      using assms that by (auto simp: le_state_def)
    then show ?thesis by (rule le_entry_trans)
  qed
  then show ?thesis
    using assms by (auto simp: le_state_def)
qed

lemma setFlag_le: "setFlag e idx = Inr e' \<Longrightarrow> le_entry e e'"
  by (auto simp: setFlag_def le_entry_def nth_list_update split: if_splits)

lemma markBit_loop_le: "markBit_loop flag e bitn w i = Inr e' \<Longrightarrow> le_entry e e'"
proof (induction flag e bitn w i rule: markBit_loop.induct)
  case (1 flag e bitn w i)
  show ?case
  proof (cases "i < w")
    case False
    then show ?thesis
      using "1.prems" by (subst (asm) markBit_loop.simps) (simp add: le_entry_refl)
  next
    case True
    note run = "1.prems" [unfolded markBit_loop.simps [of flag e bitn w i]]
    from run True have ok: "int_ok (bitn + i)"
      by (auto split: if_splits)
    from run True ok obtain b where b: "bitNumOk e (bitn + i) = Inr b"
      by (auto split: sum.splits)
    show ?thesis
    proof (cases b)
      case False
      then have "markBit_loop flag e bitn w (i + 1) = Inr e'"
        using run True ok b by simp
      then show ?thesis
        using "1.IH"(2) [OF True _ b] ok False by simp
    next
      case bt: True
      then obtain e1 where e1: "setFlag e ((bitn + i) * FLAGS_PER_BIT + flag) = Inr e1"
        using run True ok b by (auto split: sum.splits)
      then have "markBit_loop flag e1 bitn w (i + 1) = Inr e'"
        using run True ok b bt by simp
      then have "le_entry e1 e'"
        using "1.IH"(1) [OF True _ b _ e1] ok bt by simp
      then show ?thesis
        using setFlag_le [OF e1] le_entry_trans by blast
    qed
  qed
qed

lemma wf_slotD:
  "wf_state st \<Longrightarrow> user1p st v = Some p
     \<Longrightarrow> p < length (m_entryps st) \<and> m_varp (m_entryps st ! p) = v"
  by (simp add: wf_state_def)

lemma wf_entryD:
  "wf_state st \<Longrightarrow> p < length (m_entryps st)
     \<Longrightarrow> user1p st (m_varp (m_entryps st ! p)) = Some p
       \<and> int (length (m_flags (m_entryps st ! p))) = width (m_varp (m_entryps st ! p)) * 2"
  by (simp add: wf_state_def)

lemma getEntryp_wf:
  assumes "wf_state st" "getEntryp v st = Inr (p, st1)"
  shows "wf_state st1" "le_state st st1" "user1p st1 v = Some p" "p < length (m_entryps st1)"
    "m_varp (m_entryps st1 ! p) = v"
proof -
  have "wf_state st1 \<and> le_state st st1 \<and> user1p st1 v = Some p \<and> p < length (m_entryps st1)
      \<and> m_varp (m_entryps st1 ! p) = v" 
  proof (cases "user1p st v")
    case (Some q)
    then have "st1 = st" "p = q" "q < length (m_entryps st)"
      using assms(2) by (auto simp: getEntryp_def split: if_splits)
    then show ?thesis
      using assms(1) Some wf_slotD [OF assms(1) Some] by (simp add: le_state_refl)
  next
    case None
    have g: "getEntryp v st = (case new_UndrivenVarEntry v of
             Inl err \<Rightarrow> Inl err
           | Inr entry \<Rightarrow>
               Inr (length (m_entryps st),
                    st\<lparr> m_entryps := m_entryps st @ [entry],
                        user1p := (user1p st)(v \<mapsto> length (m_entryps st)) \<rparr>))"
      using None by (simp add: getEntryp_def)
    obtain e where e: "new_UndrivenVarEntry v = Inr e"
      using assms(2) g by (cases "new_UndrivenVarEntry v") simp_all
    have st1: "st1 = st\<lparr> m_entryps := m_entryps st @ [e],
                        user1p := (user1p st)(v \<mapsto> length (m_entryps st)) \<rparr>"
      and p: "p = length (m_entryps st)"
      using assms(2) g e by auto
    have ev: "m_varp e = v" "int (length (m_flags e)) = width v * 2"
      using e by (auto simp: new_UndrivenVarEntry_def split: if_splits)
    have fresh: "\<And>q. q < length (m_entryps st) \<Longrightarrow> m_varp (m_entryps st ! q) \<noteq> v"
      using wf_entryD [OF assms(1)] None by fastforce
    have "wf_state st1"
      unfolding wf_state_def
    proof (intro conjI allI impI)
      fix v' q assume q: "user1p st1 v' = Some q"
      show "q < length (m_entryps st1)"
      proof (cases "v' = v")
        case True
        then show ?thesis using q by (simp add: st1)
      next
        case False
        then have "user1p st v' = Some q" using q by (simp add: st1)
        then show ?thesis using wf_slotD [OF assms(1)] by (fastforce simp: st1)
      qed
      show "m_varp (m_entryps st1 ! q) = v'"
      proof (cases "v' = v")
        case True
        then show ?thesis using q ev by (auto simp: st1)
      next
        case False
        then have "user1p st v' = Some q" using q by (simp add: st1)
        then show ?thesis using wf_slotD [OF assms(1)] by (fastforce simp: st1 nth_append)
      qed
    next
      fix q assume q: "q < length (m_entryps st1)"
      show "user1p st1 (m_varp (m_entryps st1 ! q)) = Some q"
      proof (cases "q < length (m_entryps st)")
        case True
        then show ?thesis
          using wf_entryD [OF assms(1) True] fresh [OF True] by (simp add: st1 nth_append)
      next
        case False
        then have "q = length (m_entryps st)" using q by (simp add: st1)
        then show ?thesis using ev by (simp add: st1)
      qed
      show "int (length (m_flags (m_entryps st1 ! q))) = width (m_varp (m_entryps st1 ! q)) * 2"
      proof (cases "q < length (m_entryps st)")
        case True
        then show ?thesis
          using wf_entryD [OF assms(1) True] by (simp add: st1 nth_append)
      next
        case False
        then have "q = length (m_entryps st)" using q by (simp add: st1)
        then show ?thesis using ev by (simp add: st1)
      qed
    qed
    moreover have "le_state st st1"
      using None by (auto simp: le_state_def st1 nth_append le_entry_refl)
    ultimately show ?thesis
      using ev by (simp add: st1 p)
  qed
  then show "wf_state st1" "le_state st st1" "user1p st1 v = Some p" "p < length (m_entryps st1)"
    "m_varp (m_entryps st1 ! p) = v"
    by simp_all
qed

lemma update_entry_wf:
  assumes "wf_state st" "p < length (m_entryps st)" "le_entry (m_entryps st ! p) e'"
  shows "wf_state (st\<lparr> m_entryps := (m_entryps st)[p := e'] \<rparr>)"
    and "le_state st (st\<lparr> m_entryps := (m_entryps st)[p := e'] \<rparr>)"
proof -
  show "wf_state (st\<lparr> m_entryps := (m_entryps st)[p := e'] \<rparr>)"
    unfolding wf_state_def
  proof (intro conjI allI impI)
    fix v q assume "user1p (st\<lparr> m_entryps := (m_entryps st)[p := e'] \<rparr>) v = Some q"
    then have q: "user1p st v = Some q" by simp
    show "q < length (m_entryps (st\<lparr> m_entryps := (m_entryps st)[p := e'] \<rparr>))"
      using wf_slotD [OF assms(1) q] by simp
    show "m_varp (m_entryps (st\<lparr> m_entryps := (m_entryps st)[p := e'] \<rparr>) ! q) = v"
      using wf_slotD [OF assms(1) q] assms(3)
      by (cases "q = p") (simp_all add: le_entry_def)
  next
    fix q assume "q < length (m_entryps (st\<lparr> m_entryps := (m_entryps st)[p := e'] \<rparr>))"
    then have q: "q < length (m_entryps st)" by simp
    show "user1p (st\<lparr> m_entryps := (m_entryps st)[p := e'] \<rparr>)
          (m_varp (m_entryps (st\<lparr> m_entryps := (m_entryps st)[p := e'] \<rparr>) ! q)) = Some q"
      using wf_entryD [OF assms(1) q] assms(3) q
      by (cases "q = p") (simp_all add: le_entry_def)
    show "int (length (m_flags (m_entryps (st\<lparr> m_entryps := (m_entryps st)[p := e'] \<rparr>) ! q)))
        = width (m_varp (m_entryps (st\<lparr> m_entryps := (m_entryps st)[p := e'] \<rparr>) ! q)) * 2"
      using wf_entryD [OF assms(1) q] assms(3) q
      by (cases "q = p") (simp_all add: le_entry_def)
  qed
  show "le_state st (st\<lparr> m_entryps := (m_entryps st)[p := e'] \<rparr>)"
    using assms by (auto simp: le_state_def nth_list_update le_entry_refl)
qed

lemma call_whole_wf:
  assumes "wf_state st" "p < length (m_entryps st)" "f = usedWhole \<or> f = drivenWhole"
  shows "wf_state (call p f st)" "le_state st (call p f st)"
proof -
  have "le_entry (m_entryps st ! p) (f (m_entryps st ! p))"
    using assms(3) by (auto simp: le_entry_def usedWhole_def drivenWhole_def)
  then show "wf_state (call p f st)" "le_state st (call p f st)"
    using update_entry_wf [OF assms(1,2)] by (simp_all add: call_def)
qed

lemma call_err_bit_wf:
  assumes "wf_state st" "p < length (m_entryps st)"
    and "call_err p (\<lambda>e. markBit_loop flag e bitn w 0) st = Inr st1"
  shows "wf_state st1" "le_state st st1"
proof -
  obtain e' where e': "markBit_loop flag (m_entryps st ! p) bitn w 0 = Inr e'"
    and st1: "st1 = st\<lparr> m_entryps := (m_entryps st)[p := e'] \<rparr>"
    using assms(3) by (auto simp: call_err_def split: sum.splits)
  show "wf_state st1" "le_state st st1"
    using update_entry_wf [OF assms(1,2) markBit_loop_le [OF e']] by (simp_all add: st1)
qed

lemma runActions_append:
  "runActions (xs @ ys) st =
     (case runActions xs st of Inl err \<Rightarrow> Inl err | Inr st1 \<Rightarrow> runActions ys st1)"
  by (induction xs arbitrary: st) (auto split: sum.splits)

lemma visit_runActions:
  "visit t st = runActions (reached t) st"
  "iterateChildren cs st = runActions (concat (map reached cs)) st"
proof (induction t st and cs st rule: visit_iterateChildren.induct)
  case (1 nodep children st)
  show ?case
  proof (cases "getEntryp nodep st")
    case (Inl err)
    then show ?thesis by simp
  next
    case (Inr b)
    obtain p st1 where b: "b = (p, st1)" by (cases b)
    show ?thesis
      using Inr b "1.IH" [OF Inr b [symmetric] refl refl]
      by (simp add: Let_def)
  qed
next
  case (3 fromp lsbp widthp w st)
  show ?case
  proof (cases "castVarRef fromp \<noteq> None \<and> castConst lsbp \<noteq> None
         \<and> \<not> isFourState (the (castConst lsbp))")
    case True
    then show ?thesis
      by (auto simp: Let_def split: sum.splits)
  next
    case False
    show ?thesis
      using False "3.IH"
      by (auto simp: runActions_append split: sum.splits)
  qed
next
  case (13 child children st)
  then show ?case
    by (auto simp: runActions_append split: sum.splits)
qed (auto split: sum.splits)

lemma action_wf:
  assumes "wf_state st" "action n st = Inr st'"
  shows "wf_state st' \<and> le_state st st'"
proof (cases n)
  case (AstVarDecl nodep children)
  obtain p st1 where g: "getEntryp nodep st = Inr (p, st1)"
    using assms(2) AstVarDecl by (auto split: sum.splits)
  note w1 = getEntryp_wf [OF assms(1) g]
  define st2 where "st2 = (if isInput nodep \<or> isSigPublic nodep \<or> isSigUserRWPublic nodep
                     then call p drivenWhole st1 else st1)"
  have w2: "wf_state st2" "le_state st1 st2" "length (m_entryps st2) = length (m_entryps st1)"
    using w1 call_whole_wf [of st1 p drivenWhole]
    by (auto simp: st2_def le_state_refl call_def)
  have st': "st' = (if isOutput nodep \<or> isSigPublic nodep \<or> isSigUserRWPublic nodep
                        \<or> isSigUserRdPublic nodep
                     then call p usedWhole st2 else st2)"
    using assms(2) AstVarDecl g by (simp add: Let_def st2_def del: if_split split del: if_split cong: if_cong)
  have "wf_state st'" "le_state st2 st'"
    using w2 w1(4) call_whole_wf [of st2 p usedWhole]
    by (auto simp: st' le_state_refl)
  then show ?thesis
    using w1(2) w2(2) le_state_trans by blast
next
  case (AstSel fromp lsbp widthp w)
  show ?thesis
  proof (cases "castVarRef fromp \<noteq> None \<and> castConst lsbp \<noteq> None
         \<and> \<not> isFourState (the (castConst lsbp))")
    case False
    then show ?thesis
      using assms AstSel by (auto simp: le_state_refl)
  next
    case True
    obtain p st1 where g: "getEntryp (fst (the (castVarRef fromp))) st = Inr (p, st1)"
      using assms(2) AstSel True by (auto split: sum.splits)
    note w1 = getEntryp_wf [OF assms(1) g]
    have "\<exists>flag. call_err p (\<lambda>e. markBit_loop flag e (sint (toUInt (the (castConst lsbp)))) w 0) st1
        = Inr st'"
      using assms(2) AstSel True g
      by (auto simp: Let_def usedBit_def drivenBit_def split: if_splits)
    then obtain flag where
      "call_err p (\<lambda>e. markBit_loop flag e (sint (toUInt (the (castConst lsbp)))) w 0) st1 = Inr st'"
      by blast
    from call_err_bit_wf [OF w1(1) w1(4) this] show ?thesis
      using w1(2) le_state_trans by blast
  qed
next
  case (AstVarRef varp lvalue)
  obtain p st1 where g: "getEntryp varp st = Inr (p, st1)"
    using assms(2) AstVarRef by (auto split: sum.splits)
  note w1 = getEntryp_wf [OF assms(1) g]
  have "st' = call p (if lvalue then drivenWhole else usedWhole) st1"
    using assms(2) AstVarRef g by (auto split: if_splits)
  then have "wf_state st'" "le_state st1 st'"
    using call_whole_wf [OF w1(1) w1(4), of "if lvalue then drivenWhole else usedWhole"]
    by auto
  then show ?thesis
    using w1(2) le_state_trans by blast
qed (use assms in \<open>auto simp: le_state_refl\<close>)

lemma runActions_wf:
  "wf_state st \<Longrightarrow> runActions ns st = Inr st' \<Longrightarrow> wf_state st' \<and> le_state st st'"
proof (induction ns arbitrary: st)
  case Nil
  then show ?case by (simp add: le_state_refl)
next
  case (Cons n ns)
  then obtain st1 where a: "action n st = Inr st1" and r: "runActions ns st1 = Inr st'"
    by (auto split: sum.splits)
  from action_wf [OF Cons.prems(1) a] Cons.IH [OF _ r] show ?case
    using le_state_trans by blast
qed

lemma runActions_reaches:
  assumes "n \<in> set ns" "wf_state st" "runActions ns st = Inr st'"
  shows "\<exists>s1 s2. wf_state s1 \<and> le_state st s1 \<and> action n s1 = Inr s2 \<and> wf_state s2
      \<and> le_state s2 st' \<and> wf_state st'"
proof -
  obtain xs ys where ns: "ns = xs @ n # ys"
    using assms(1) by (meson split_list)
  obtain s1 where s1: "runActions xs st = Inr s1" and r: "runActions (n # ys) s1 = Inr st'"
    using assms(3) by (auto simp: ns runActions_append split: sum.splits)
  obtain s2 where a: "action n s1 = Inr s2" and r2: "runActions ys s2 = Inr st'"
    using r by (auto split: sum.splits)
  note w1 = runActions_wf [OF assms(2) s1]
  note w2 = action_wf [OF w1 [THEN conjunct1] a]
  note w3 = runActions_wf [OF w2 [THEN conjunct1] r2]
  show ?thesis
    using w1 w2 w3 a by blast
qed

lemma visit_wf:
  "wf_state st \<Longrightarrow> visit t st = Inr st' \<Longrightarrow> wf_state st' \<and> le_state st st'"
  by (simp add: visit_runActions runActions_wf)

lemma wf_state_initial: "wf_state \<lparr> user1p = Map.empty, m_entryps = [] \<rparr>"
  by (simp add: wf_state_def)

lemma entryOf_wf:
  "wf_state st \<Longrightarrow> entryOf st v = (case user1p st v of None \<Rightarrow> None | Some p \<Rightarrow> Some (m_entryps st ! p))"
  using wf_slotD [of st v] by (auto simp: entryOf_def split: option.splits)

lemma getEntryp_entryOf:
  assumes "wf_state st" "getEntryp n st = Inr (p, st1)"
  shows "entryOf st1 v = (if v = n then Some (baseEntry st n) else entryOf st v)"
    and "m_entryps st1 ! p = baseEntry st n"
proof -
  note w1 = getEntryp_wf [OF assms]
  have base: "m_entryps st1 ! p = baseEntry st n"
  proof (cases "user1p st n")
    case (Some q)
    then have "st1 = st" "p = q"
      using assms(2) by (auto simp: getEntryp_def split: if_splits)
    then show ?thesis
      using Some assms(1) by (simp add: baseEntry_def entryOf_wf)
  next
    case None
    have g: "getEntryp n st = (case new_UndrivenVarEntry n of
             Inl err \<Rightarrow> Inl err
           | Inr entry \<Rightarrow>
               Inr (length (m_entryps st),
                    st\<lparr> m_entryps := m_entryps st @ [entry],
                        user1p := (user1p st)(n \<mapsto> length (m_entryps st)) \<rparr>))"
      using None by (simp add: getEntryp_def)
    obtain e where e: "new_UndrivenVarEntry n = Inr e"
      using assms(2) g by (cases "new_UndrivenVarEntry n") simp_all
    have st1: "st1 = st\<lparr> m_entryps := m_entryps st @ [e],
                        user1p := (user1p st)(n \<mapsto> length (m_entryps st)) \<rparr>"
      and p: "p = length (m_entryps st)"
      using assms(2) g e by auto
    have "e = freshEntry n"
      using e by (auto simp: new_UndrivenVarEntry_def freshEntry_def split: if_splits)
    then show ?thesis
      using None assms(1) by (simp add: st1 p baseEntry_def entryOf_wf)
  qed
  show "m_entryps st1 ! p = baseEntry st n" by (rule base)
  show "entryOf st1 v = (if v = n then Some (baseEntry st n) else entryOf st v)"
  proof (cases "v = n")
    case True
    then show ?thesis
      using w1(1,3) base by (simp add: entryOf_wf)
  next
    case False
    have "user1p st1 v = user1p st v \<and> (\<forall>q. user1p st v = Some q \<longrightarrow> m_entryps st1 ! q = m_entryps st ! q)"
    proof (cases "user1p st n")
      case (Some q)
      then have "st1 = st"
        using assms(2) by (auto simp: getEntryp_def split: if_splits)
      then show ?thesis by simp
    next
      case None
      have g: "getEntryp n st = (case new_UndrivenVarEntry n of
             Inl err \<Rightarrow> Inl err
           | Inr entry \<Rightarrow>
               Inr (length (m_entryps st),
                    st\<lparr> m_entryps := m_entryps st @ [entry],
                        user1p := (user1p st)(n \<mapsto> length (m_entryps st)) \<rparr>))"
        using None by (simp add: getEntryp_def)
      obtain e where e: "new_UndrivenVarEntry n = Inr e"
        using assms(2) g by (cases "new_UndrivenVarEntry n") simp_all
      have st1: "st1 = st\<lparr> m_entryps := m_entryps st @ [e],
                        user1p := (user1p st)(n \<mapsto> length (m_entryps st)) \<rparr>"
        using assms(2) g e by auto
      show ?thesis
        using False wf_slotD [OF assms(1)] by (auto simp: st1 nth_append)
    qed
    then show ?thesis
      using False assms(1) w1(1) by (auto simp: entryOf_wf split: option.splits)
  qed
qed

lemma update_entryOf:
  assumes "wf_state st" "user1p st n = Some p"
  shows "entryOf (st\<lparr> m_entryps := (m_entryps st)[p := e'] \<rparr>) v
      = (if v = n then Some e' else entryOf st v)"
proof (cases "v = n")
  case True
  then show ?thesis
    using assms wf_slotD [OF assms] by (simp add: entryOf_def)
next
  case False
  show ?thesis
  proof (cases "user1p st v")
    case None
    then show ?thesis using False by (simp add: entryOf_def)
  next
    case (Some q)
    have "q \<noteq> p"
      using wf_slotD [OF assms] wf_slotD [OF assms(1) Some] False by auto
    then show ?thesis
      using False Some by (simp add: entryOf_def)
  qed
qed

lemma action_VarRef_entryOf:
  assumes "wf_state st" "action (AstVarRef n lv) st = Inr st'"
  shows "entryOf st' v = (if v = n
      then Some ((if lv then drivenWhole else usedWhole) (baseEntry st n))
      else entryOf st v)"
proof -
  obtain p st1 where g: "getEntryp n st = Inr (p, st1)"
    using assms(2) by (auto split: sum.splits)
  note w1 = getEntryp_wf [OF assms(1) g]
  note e1 = getEntryp_entryOf [OF assms(1) g]
  have "st' = st1\<lparr> m_entryps := (m_entryps st1)
      [p := (if lv then drivenWhole else usedWhole) (m_entryps st1 ! p)] \<rparr>"
    using assms(2) g by (auto simp: call_def split: if_splits)
  then show ?thesis
    using update_entryOf [OF w1(1) w1(3)] e1 by simp
qed

lemma action_VarDecl_entryOf:
  assumes "wf_state st" "action (AstVarDecl n cs) st = Inr st'"
  shows "entryOf st' v = (if v = n
      then Some ((baseEntry st n)
             \<lparr> m_drivenWhole := m_drivenWhole (baseEntry st n) \<or> declFlag True n,
               m_usedWhole := m_usedWhole (baseEntry st n) \<or> declFlag False n \<rparr>)
      else entryOf st v)"
proof -
  obtain p st1 where g: "getEntryp n st = Inr (p, st1)"
    using assms(2) by (auto split: sum.splits)
  note w1 = getEntryp_wf [OF assms(1) g]
  note e1 = getEntryp_entryOf [OF assms(1) g]
  define e' where "e' = (baseEntry st n)
             \<lparr> m_drivenWhole := m_drivenWhole (baseEntry st n) \<or> declFlag True n,
               m_usedWhole := m_usedWhole (baseEntry st n) \<or> declFlag False n \<rparr>"
  have "st' = st1\<lparr> m_entryps := (m_entryps st1)[p := e'] \<rparr>"
  proof (cases "declFlag True n"; cases "declFlag False n")
    assume a: "declFlag True n" "declFlag False n"
    then have "st' = call p usedWhole (call p drivenWhole st1)"
      using assms(2) g by (auto simp: declFlag_def)
    then show ?thesis
      using a w1(4) e1(2) by (simp add: call_def usedWhole_def drivenWhole_def e'_def)
  next
    assume a: "declFlag True n" "\<not> declFlag False n"
    then have "st' = call p drivenWhole st1"
      using assms(2) g by (auto simp: declFlag_def)
    then show ?thesis
      using a w1(4) e1(2) by (simp add: call_def usedWhole_def drivenWhole_def e'_def)
  next
    assume a: "\<not> declFlag True n" "declFlag False n"
    then have "st' = call p usedWhole st1"
      using assms(2) g by (auto simp: declFlag_def)
    then show ?thesis
      using a w1(4) e1(2) by (simp add: call_def usedWhole_def drivenWhole_def e'_def)
  next
    assume a: "\<not> declFlag True n" "\<not> declFlag False n"
    then have "st' = st1"
      using assms(2) g by (auto simp: declFlag_def)
    moreover have "(m_entryps st1)[p := m_entryps st1 ! p] = m_entryps st1"
      by simp
    ultimately show ?thesis
      using a w1(4) e1(2) by (simp add: e'_def)
  qed
  then show ?thesis
    using update_entryOf [OF w1(1) w1(3)] e1 by (simp add: e'_def)
qed

lemma action_Sel_entryOf:
  assumes "wf_state st" "action (AstSel fromp lsbp widthp w) st = Inr st'"
    and "castVarRef fromp = Some (n, lv)" "castConst lsbp = Some num" "\<not> isFourState num"
  shows "\<exists>e'. markBit_loop (if lv then FLAG_DRIVEN else FLAG_USED) (baseEntry st n)
            (sint (toUInt num)) w 0 = Inr e'
      \<and> (\<forall>v. entryOf st' v = (if v = n then Some e' else entryOf st v))"
proof -
  obtain p st1 where g: "getEntryp n st = Inr (p, st1)"
    using assms(2-5) by (auto split: sum.splits)
  note w1 = getEntryp_wf [OF assms(1) g]
  note e1 = getEntryp_entryOf [OF assms(1) g]
  have c: "call_err p (\<lambda>e. markBit_loop (if lv then FLAG_DRIVEN else FLAG_USED) e
      (sint (toUInt num)) w 0) st1 = Inr st'"
    using assms(2-5) g by (auto simp: Let_def usedBit_def drivenBit_def)
  then obtain e' where e': "markBit_loop (if lv then FLAG_DRIVEN else FLAG_USED) (m_entryps st1 ! p)
      (sint (toUInt num)) w 0 = Inr e'"
    and st': "st' = st1\<lparr> m_entryps := (m_entryps st1)[p := e'] \<rparr>"
    by (auto simp: call_err_def split: sum.splits)
  show ?thesis
    using e' update_entryOf [OF w1(1) w1(3)] e1 by (auto simp: st')
qed

lemma le_state_entryOf:
  assumes "wf_state st" "le_state st st'" "entryOf st v = Some e"
  shows "\<exists>e'. entryOf st' v = Some e' \<and> le_entry e e'"
proof -
  obtain p where p: "user1p st v = Some p" "e = m_entryps st ! p"
    using assms(1,3) by (auto simp: entryOf_wf split: option.splits)
  have "p < length (m_entryps st)"
    using wf_slotD [OF assms(1) p(1)] by simp
  then have "user1p st' v = Some p" "p < length (m_entryps st')"
    "le_entry (m_entryps st ! p) (m_entryps st' ! p)"
    using assms(2) p(1) by (auto simp: le_state_def)
  then show ?thesis
    using p(2) by (simp add: entryOf_def)
qed

lemma le_entry_wholeFlag: "le_entry e e' \<Longrightarrow> wholeFlag lv e \<Longrightarrow> wholeFlag lv e'"
  by (auto simp: le_entry_def wholeFlag_def)

lemma wholeFlag_mark [simp]:
  "wholeFlag lv ((if lv then drivenWhole else usedWhole) e)"
  by (simp add: wholeFlag_def drivenWhole_def usedWhole_def)

lemma reached_VarRef_whole:
  assumes "wf_state st" "runActions ns st = Inr st'" "AstVarRef v lv \<in> set ns"
  shows "\<exists>e. entryOf st' v = Some e \<and> wholeFlag lv e"
proof -
  from runActions_reaches [OF assms(3,1,2)]
  obtain s1 s2 where s: "wf_state s1" "action (AstVarRef v lv) s1 = Inr s2" "wf_state s2"
    "le_state s2 st'"
    by blast
  have "entryOf s2 v = Some ((if lv then drivenWhole else usedWhole) (baseEntry s1 v))"
    using action_VarRef_entryOf [OF s(1,2), of v] by simp
  from le_state_entryOf [OF s(3,4) this] show ?thesis
    using le_entry_wholeFlag wholeFlag_mark by blast
qed

lemma reached_VarDecl_whole:
  assumes "wf_state st" "runActions ns st = Inr st'" "AstVarDecl v cs \<in> set ns"
  shows "\<exists>e. entryOf st' v = Some e \<and> (declFlag lv v \<longrightarrow> wholeFlag lv e)"
proof -
  from runActions_reaches [OF assms(3,1,2)]
  obtain s1 s2 where s: "wf_state s1" "action (AstVarDecl v cs) s1 = Inr s2" "wf_state s2"
    "le_state s2 st'"
    by blast
  define e2 where "e2 = (baseEntry s1 v)
             \<lparr> m_drivenWhole := m_drivenWhole (baseEntry s1 v) \<or> declFlag True v,
               m_usedWhole := m_usedWhole (baseEntry s1 v) \<or> declFlag False v \<rparr>"
  have e2: "entryOf s2 v = Some e2"
    using action_VarDecl_entryOf [OF s(1,2), of v] by (simp add: e2_def)
  have "declFlag lv v \<longrightarrow> wholeFlag lv e2"
    by (cases lv) (simp_all add: e2_def wholeFlag_def)
  with le_state_entryOf [OF s(3,4) e2] show ?thesis
    using le_entry_wholeFlag by blast
qed

lemma setFlag_other_side:
  assumes "setFlag e (b * 2 + flag) = Inr e'" "flag = 0 \<or> flag = 1"
  shows "m_varp e' = m_varp e \<and> m_usedWhole e' = m_usedWhole e \<and> m_drivenWhole e' = m_drivenWhole e
      \<and> length (m_flags e') = length (m_flags e)
      \<and> (\<forall>k. m_flags e' ! (k * 2 + nat (1 - flag)) = m_flags e ! (k * 2 + nat (1 - flag)))"
proof -
  have r: "0 \<le> b * 2 + flag" and e': "e' = e\<lparr>m_flags := (m_flags e)[nat (b * 2 + flag) := True]\<rparr>"
    using assms(1) by (auto simp: setFlag_def split: if_splits)
  have "nat (b * 2 + flag) \<noteq> k * 2 + nat (1 - flag)" for k
  proof
    assume "nat (b * 2 + flag) = k * 2 + nat (1 - flag)"
    then have "b * 2 + flag = int (k * 2 + nat (1 - flag))"
      using r by linarith
    then show False
      using assms(2) by auto presburger+
  qed
  then show ?thesis
    by (simp add: e')
qed

lemma markBit_loop_other_side:
  "markBit_loop flag e bitn w i = Inr e' \<Longrightarrow> flag = 0 \<or> flag = 1 \<Longrightarrow>
     m_varp e' = m_varp e \<and> m_usedWhole e' = m_usedWhole e \<and> m_drivenWhole e' = m_drivenWhole e
      \<and> length (m_flags e') = length (m_flags e)
      \<and> (\<forall>k. m_flags e' ! (k * 2 + nat (1 - flag)) = m_flags e ! (k * 2 + nat (1 - flag)))"
proof (induction flag e bitn w i rule: markBit_loop.induct)
  case (1 flag e bitn w i)
  show ?case
  proof (cases "i < w")
    case False
    then show ?thesis
      using "1.prems" by (subst (asm) markBit_loop.simps) simp
  next
    case True
    note run = "1.prems"(1) [unfolded markBit_loop.simps [of flag e bitn w i]]
    from run True have ok: "int_ok (bitn + i)"
      by (auto split: if_splits)
    from run True ok obtain b where b: "bitNumOk e (bitn + i) = Inr b"
      by (auto split: sum.splits)
    show ?thesis
    proof (cases b)
      case False
      then have "markBit_loop flag e bitn w (i + 1) = Inr e'"
        using run True ok b by simp
      then show ?thesis
        using "1.IH"(2) [OF True _ b] ok False "1.prems"(2) by simp
    next
      case bt: True
      then obtain e1 where e1: "setFlag e ((bitn + i) * FLAGS_PER_BIT + flag) = Inr e1"
        using run True ok b by (auto split: sum.splits)
      then have "markBit_loop flag e1 bitn w (i + 1) = Inr e'"
        using run True ok b bt by simp
      then have "m_varp e' = m_varp e1 \<and> m_usedWhole e' = m_usedWhole e1
          \<and> m_drivenWhole e' = m_drivenWhole e1
          \<and> length (m_flags e') = length (m_flags e1)
          \<and> (\<forall>k. m_flags e' ! (k * 2 + nat (1 - flag)) = m_flags e1 ! (k * 2 + nat (1 - flag)))"
        using "1.IH"(1) [OF True _ b _ e1] ok bt "1.prems"(2) by simp
      moreover have "m_varp e1 = m_varp e \<and> m_usedWhole e1 = m_usedWhole e
          \<and> m_drivenWhole e1 = m_drivenWhole e
          \<and> length (m_flags e1) = length (m_flags e)
          \<and> (\<forall>k. m_flags e1 ! (k * 2 + nat (1 - flag)) = m_flags e ! (k * 2 + nat (1 - flag)))"
        using setFlag_other_side [of e "bitn + i" flag e1] e1 "1.prems"(2) by simp
      ultimately show ?thesis
        by simp
    qed
  qed
qed

lemma entryBound_fresh: "entryBound lv v (freshEntry v)"
  by (auto simp: entryBound_def freshEntry_def wholeFlag_def bitFlag_def usedFlag_def
      drivenFlag_def list_ex_iff)

lemma baseEntry_bound: "flagBound lv st v \<Longrightarrow> entryBound lv v (baseEntry st v)"
  by (auto simp: flagBound_def baseEntry_def entryBound_fresh split: option.splits)

lemma entryBound_cong:
  assumes "entryBound lv v e" "length (m_flags e') = length (m_flags e)"
    and "wholeFlag lv e' \<longrightarrow> wholeFlag lv e \<or> declFlag lv v"
    and "\<And>k. bitFlag lv e' k = bitFlag lv e k"
  shows "entryBound lv v e'"
  using assms by (auto simp: entryBound_def list_ex_iff)

lemma action_flagBound:
  assumes "wf_state st" "flagBound lv st v" "\<not> refersTo lv v n" "action n st = Inr st'"
  shows "flagBound lv st' v"
proof (cases n)
  case (AstVarDecl n' cs)
  show ?thesis
  proof (cases "v = n'")
    case False
    then show ?thesis
      using action_VarDecl_entryOf [OF assms(1) assms(4) [unfolded AstVarDecl], of v] assms(2)
      by (simp add: flagBound_def)
  next
    case True
    have "entryBound lv v ((baseEntry st v)
             \<lparr> m_drivenWhole := m_drivenWhole (baseEntry st v) \<or> declFlag True v,
               m_usedWhole := m_usedWhole (baseEntry st v) \<or> declFlag False v \<rparr>)"
      by (rule entryBound_cong [OF baseEntry_bound [OF assms(2)]])
        (auto simp: wholeFlag_def bitFlag_def usedFlag_def drivenFlag_def)
    then show ?thesis
      using action_VarDecl_entryOf [OF assms(1) assms(4) [unfolded AstVarDecl], of v] True
      by (simp add: flagBound_def)
  qed
next
  case (AstVarRef n' lv')
  show ?thesis
  proof (cases "v = n'")
    case False
    then show ?thesis
      using action_VarRef_entryOf [OF assms(1) assms(4) [unfolded AstVarRef], of v] assms(2)
      by (simp add: flagBound_def)
  next
    case True
    then have ne: "lv' \<noteq> lv"
      using assms(3) AstVarRef by auto
    have "entryBound lv v ((if lv' then drivenWhole else usedWhole) (baseEntry st v))"
      by (rule entryBound_cong [OF baseEntry_bound [OF assms(2)]])
        (use ne in \<open>auto simp: wholeFlag_def bitFlag_def usedFlag_def drivenFlag_def
           usedWhole_def drivenWhole_def\<close>)
    then show ?thesis
      using action_VarRef_entryOf [OF assms(1) assms(4) [unfolded AstVarRef], of v] True
      by (simp add: flagBound_def)
  qed
next
  case (AstSel fromp lsbp widthp w)
  show ?thesis
  proof (cases "castVarRef fromp \<noteq> None \<and> castConst lsbp \<noteq> None
         \<and> \<not> isFourState (the (castConst lsbp))")
    case False
    then have "st' = st"
      using assms(4) AstSel by auto
    then show ?thesis
      using assms(2) by simp
  next
    case True
    then obtain n' lv' num where c: "castVarRef fromp = Some (n', lv')"
      "castConst lsbp = Some num" "\<not> isFourState num"
      by auto
    from action_Sel_entryOf [OF assms(1) assms(4) [unfolded AstSel] c]
    obtain e' where e': "markBit_loop (if lv' then FLAG_DRIVEN else FLAG_USED) (baseEntry st n')
            (sint (toUInt num)) w 0 = Inr e'"
      "\<And>v. entryOf st' v = (if v = n' then Some e' else entryOf st v)"
      by blast
    show ?thesis
    proof (cases "v = n'")
      case False
      then show ?thesis
        using e'(2) [of v] assms(2) by (simp add: flagBound_def)
    next
      case True
      then have ne: "lv' \<noteq> lv"
        using assms(3) AstSel c by auto
      note o = markBit_loop_other_side [OF e'(1)]
      have "entryBound lv v e'"
      proof (rule entryBound_cong [OF baseEntry_bound [OF assms(2)]])
        show "length (m_flags e') = length (m_flags (baseEntry st v))"
          using o True by auto
        show "wholeFlag lv e' \<longrightarrow> wholeFlag lv (baseEntry st v) \<or> declFlag lv v"
          using o True by (auto simp: wholeFlag_def)
        show "bitFlag lv e' k = bitFlag lv (baseEntry st v) k" for k
        proof (cases lv)
          case lvT: True
          then have "\<not> lv'" using ne by simp
          then show ?thesis
            using o True lvT by (auto simp: bitFlag_def drivenFlag_def)
        next
          case lvF: False
          then have "lv'" using ne by simp
          then show ?thesis
            using o True lvF by (auto simp: bitFlag_def usedFlag_def)
        qed
      qed
      then show ?thesis
        using e'(2) [of v] True by (simp add: flagBound_def)
    qed
  qed
qed (use assms in auto)

lemma runActions_flagBound:
  "wf_state st \<Longrightarrow> flagBound lv st v \<Longrightarrow> \<not> list_ex (refersTo lv v) ns
     \<Longrightarrow> runActions ns st = Inr st' \<Longrightarrow> flagBound lv st' v"
proof (induction ns arbitrary: st)
  case Nil
  then show ?case by simp
next
  case (Cons n ns)
  then obtain st1 where a: "action n st = Inr st1" and r: "runActions ns st1 = Inr st'"
    by (auto split: sum.splits)
  have "\<not> refersTo lv v n" "\<not> list_ex (refersTo lv v) ns"
    using Cons.prems(3) by simp_all
  then show ?case
    using Cons.IH [OF _ _ _ r] action_wf [OF Cons.prems(1) a]
      action_flagBound [OF Cons.prems(1,2) _ a]
    by blast
qed

lemma reportViolations_node:
  "d \<in> set (fst (reportViolations e)) \<Longrightarrow> d_node d = m_varp e"
  by (auto simp: reportViolations_unfold testResults_def v3warn_def Let_def promoted_def
      split: if_splits)

lemma reportAll_concat: "reportAll es = concat (map (\<lambda>e. fst (reportViolations e)) es)"
  by (induction es) simp_all

lemma concat_map_single:
  assumes "p < length es" "\<And>q. q < length es \<Longrightarrow> q \<noteq> p \<Longrightarrow> g (es ! q) = []"
  shows "concat (map g es) = g (es ! p)"
proof -
  have es: "es = take p es @ es ! p # drop (Suc p) es"
    using assms(1) by (simp add: id_take_nth_drop)
  have a: "g x = []" if x: "x \<in> set (take p es)" for x
  proof -
    obtain q where q: "q < length (take p es)" "x = take p es ! q"
      using x unfolding in_set_conv_nth by blast
    then have "x = es ! q" "q < length es" "q \<noteq> p"
      using assms(1) by auto
    then show ?thesis
      using assms(2) by blast
  qed
  have b: "g x = []" if x: "x \<in> set (drop (Suc p) es)" for x
  proof -
    obtain q where q: "q < length (drop (Suc p) es)" "x = drop (Suc p) es ! q"
      using x unfolding in_set_conv_nth by blast
    then have "x = es ! (Suc p + q)" "Suc p + q < length es" "Suc p + q \<noteq> p"
      using assms(1) by auto
    then show ?thesis
      using assms(2) by blast
  qed
  have c: "concat (map g (take p es)) = []" "concat (map g (drop (Suc p) es)) = []"
    using a b by simp_all
  have "concat (map g (take p es @ es ! p # drop (Suc p) es)) = g (es ! p)"
    by (simp only: map_append list.map concat_append concat.simps c append_Nil append_Nil2)
  then show ?thesis
    using es by simp
qed

lemma reportAll_filter:
  assumes "wf_state st" "entryOf st v = Some e"
  shows "filter (\<lambda>d. d_node d = v) (reportAll (m_entryps st)) = fst (reportViolations e)"
proof -
  obtain p where p: "user1p st v = Some p" "e = m_entryps st ! p"
    using assms by (auto simp: entryOf_wf split: option.splits)
  note s = wf_slotD [OF assms(1) p(1)]
  define g where "g = (\<lambda>e. filter (\<lambda>d. d_node d = v) (fst (reportViolations e)))"
  have other: "g (m_entryps st ! q) = []" if "q < length (m_entryps st)" "q \<noteq> p" for q
  proof -
    have "m_varp (m_entryps st ! q) \<noteq> v"
      using wf_entryD [OF assms(1) that(1)] p(1) that(2) by auto
    then show ?thesis
      using reportViolations_node [of _ "m_entryps st ! q"] by (auto simp: g_def filter_empty_conv)
  qed
  have "g (m_entryps st ! p) = fst (reportViolations (m_entryps st ! p))"
    using reportViolations_node [of _ "m_entryps st ! p"] s by (auto simp: g_def filter_id_conv)
  moreover have "filter (\<lambda>d. d_node d = v) (reportAll (m_entryps st)) = concat (map g (m_entryps st))"
    by (simp add: reportAll_concat filter_concat g_def comp_def)
  ultimately show ?thesis
    using concat_map_single [of p "m_entryps st" g] other s p(2) by simp
qed

lemma entryBound_not_used:
  assumes "entryBound False v e" "\<not> declFlag False v" "2 \<le> length (m_flags e)"
  shows "\<not> anyUsed e" "\<not> allUsed e"
proof -
  have n: "\<not> m_usedWhole e" "\<not> list_ex (usedFlag e) [0..<length (m_flags e) div 2]"
    using assms(1,2) by (auto simp: entryBound_def wholeFlag_def bitFlag_def list_ex_iff)
  then show "\<not> anyUsed e"
    by (simp add: anyUsed_def)
  have "0 < length (m_flags e) div 2"
    using assms(3) by simp
  then have "\<not> usedFlag e 0"
    using n(2) by (auto simp: list_ex_iff)
  then show "\<not> allUsed e"
    using \<open>0 < length (m_flags e) div 2\<close> by (auto simp: allUsed_def list_all_iff)
qed

lemma entryBound_not_driven:
  assumes "entryBound True v e" "\<not> declFlag True v" "2 \<le> length (m_flags e)"
  shows "\<not> anyDriven e" "\<not> allDriven e"
proof -
  have n: "\<not> m_drivenWhole e" "\<not> list_ex (drivenFlag e) [0..<length (m_flags e) div 2]"
    using assms(1,2) by (auto simp: entryBound_def wholeFlag_def bitFlag_def list_ex_iff)
  then show "\<not> anyDriven e"
    by (simp add: anyDriven_def)
  have "0 < length (m_flags e) div 2"
    using assms(3) by simp
  then have "\<not> drivenFlag e 0"
    using n(2) by (auto simp: list_ex_iff)
  then show "\<not> allDriven e"
    using \<open>0 < length (m_flags e) div 2\<close> by (auto simp: allDriven_def list_all_iff)
qed

lemma report_never_used:
  assumes "\<not> anyUsed e" "\<not> allUsed e" "\<not> isParam (m_varp e)" "\<not> isGenVar (m_varp e)"
  shows "fst (reportViolations e) =
     (if anyDriven e
      then Diag (m_varp e) UNUSED (''Signal is not used: '' @ prettyName (m_varp e))
           # (if m_drivenWhole e \<or> allDriven e then []
              else [Diag (m_varp e) UNDRIVEN (''Bits of signal are not driven: ''
                      @ prettyName (m_varp e) @ bitNames e FLAG_DRIVEN)])
      else [Diag (m_varp e) UNDRIVEN
              (''Signal is not driven, nor used: '' @ prettyName (m_varp e))])"
proof -
  have u: "\<not> m_usedWhole e"
    using assms(1) by (simp add: anyUsed_def)
  have "m_varp (promoted e) = m_varp e" "\<not> m_usedWhole (promoted e)"
    "m_drivenWhole (promoted e) = (m_drivenWhole e \<or> allDriven e)"
    using u assms(2) by (simp_all add: promoted_def)
  then show ?thesis
    using assms bitNames_promoted [of e FLAG_DRIVEN]
    by (auto simp: reportViolations_unfold testResults_def v3warn_def Let_def)
qed

lemma report_whole_used:
  assumes "m_usedWhole e"
  shows "fst (reportViolations e) = []
    \<or> fst (reportViolations e)
        = [Diag (m_varp e) UNDRIVEN (''Signal is not driven: '' @ prettyName (m_varp e))]
    \<or> fst (reportViolations e)
        = [Diag (m_varp e) UNDRIVEN (''Bits of signal are not driven: ''
                      @ prettyName (m_varp e) @ bitNames e FLAG_DRIVEN)]"
proof (cases "\<not> isParam (m_varp e) \<and> \<not> isGenVar (m_varp e)")
  case False
  then show ?thesis by (auto simp: reportViolations_unfold)
next
  case True
  have "m_varp (promoted e) = m_varp e" "m_usedWhole (promoted e)" "anyUsed e"
    using assms by (simp_all add: promoted_def anyUsed_def)
  then show ?thesis
    using True bitNames_promoted [of e FLAG_DRIVEN]
    by (auto simp: reportViolations_unfold testResults_def v3warn_def Let_def)
qed

lemma reached_self: "t \<in> set (reached t)"
  by (cases t) simp_all

lemma reached_trans: "n \<in> set (reached t) \<Longrightarrow> set (reached n) \<subseteq> set (reached t)"
proof (induction t rule: reached.induct)
  case (1 nodep children)
  then show ?case by fastforce
next
  case (2 children)
  then show ?case by fastforce
next
  case (3 fromp lsbp widthp w)
  show ?case
  proof (cases "castVarRef fromp \<noteq> None \<and> castConst lsbp \<noteq> None
           \<and> \<not> isFourState (the (castConst lsbp))")
    case True
    then show ?thesis using "3.prems" by auto
  next
    case False
    then have r: "set (reached (AstSel fromp lsbp widthp w))
        = insert (AstSel fromp lsbp widthp w)
            (set (reached fromp) \<union> set (reached lsbp) \<union> set (reached widthp))"
      by auto
    then consider "n = AstSel fromp lsbp widthp w" | "n \<in> set (reached fromp)"
      | "n \<in> set (reached lsbp)" | "n \<in> set (reached widthp)"
      using "3.prems" by blast
    then show ?thesis
    proof cases
      case 1
      then show ?thesis by simp
    next
      case 2
      then show ?thesis using "3.IH"(1) [OF False] r by blast
    next
      case 3
      then show ?thesis using "3.IH"(2) [OF False] r by blast
    next
      case 4
      then show ?thesis using "3.IH"(3) [OF False] r by blast
    qed
  qed
next
  case (4 children)
  then show ?case by fastforce
qed simp_all

lemma reached_child:
  assumes "AstArraySel cs \<in> set (reached t)" "c \<in> set cs"
  shows "c \<in> set (reached t)"
proof -
  have "c \<in> set (reached (AstArraySel cs))"
    using assms(2) reached_self [of c] by auto
  then show ?thesis
    using reached_trans [OF assms(1)] by blast
qed

lemma undrivenAll_state:
  assumes "undrivenAll u t = Inr (ds, u')"
  obtains st where "runActions (reached t) \<lparr> user1p = Map.empty, m_entryps = [] \<rparr> = Inr st"
    "new_UndrivenVisitor u t = Inr st" "wf_state st" "ds = reportAll (m_entryps st)"
proof -
  obtain st where st: "new_UndrivenVisitor u t = Inr st" "ds = reportAll (m_entryps st)"
    using assms by (auto simp: undrivenAll_def split: sum.splits)
  then have r: "runActions (reached t) \<lparr> user1p = Map.empty, m_entryps = [] \<rparr> = Inr st"
    by (simp add: new_UndrivenVisitor_def user1ClearTree_def visit_runActions)
  from runActions_wf [OF wf_state_initial r] that [OF r st(1) _ st(2)] show ?thesis
    by blast
qed

lemma le_entry_bitFlag:
  "le_entry e e' \<Longrightarrow> k < length (m_flags e) div 2 \<Longrightarrow> bitFlag lv e k \<Longrightarrow> bitFlag lv e' k"
  by (cases lv) (auto simp: le_entry_def bitFlag_def usedFlag_def drivenFlag_def)

lemma baseEntry_length:
  assumes "wf_state st" "0 \<le> width v"
  shows "int (length (m_flags (baseEntry st v))) = width v * 2" "m_varp (baseEntry st v) = v"
proof -
  show "int (length (m_flags (baseEntry st v))) = width v * 2"
  proof (cases "user1p st v")
    case None
    then show ?thesis
      using assms by (simp add: baseEntry_def entryOf_wf freshEntry_def)
  next
    case (Some p)
    then show ?thesis
      using assms(1) wf_slotD [OF assms(1) Some] wf_entryD [OF assms(1), of p]
      by (simp add: baseEntry_def entryOf_wf)
  qed
  show "m_varp (baseEntry st v) = v"
  proof (cases "user1p st v")
    case None
    then show ?thesis
      using assms by (simp add: baseEntry_def entryOf_wf freshEntry_def)
  next
    case (Some p)
    then show ?thesis
      using assms(1) wf_slotD [OF assms(1) Some]
      by (simp add: baseEntry_def entryOf_wf)
  qed
qed

lemma reached_Sel_bit:
  assumes "wf_state st" "runActions ns st = Inr st'"
    and "AstSel (AstVarRef v lv) (AstConst num) widthp w \<in> set ns"
    and "\<not> isFourState num" "0 \<le> sint (toUInt num)" "sint (toUInt num) + w \<le> 2 ^ 30"
    and "int k < width v" "sint (toUInt num) \<le> int k" "int k < sint (toUInt num) + w"
  shows "\<exists>e. entryOf st' v = Some e \<and> bitFlag lv e k"
proof -
  from runActions_reaches [OF assms(3,1,2)]
  obtain s1 s2 where s: "wf_state s1"
    "action (AstSel (AstVarRef v lv) (AstConst num) widthp w) s1 = Inr s2" "wf_state s2"
    "le_state s2 st'"
    by blast
  from action_Sel_entryOf [OF s(1,2) _ _ assms(4), of v lv]
  obtain e2 where e2: "markBit_loop (if lv then FLAG_DRIVEN else FLAG_USED) (baseEntry s1 v)
            (sint (toUInt num)) w 0 = Inr e2" "entryOf s2 v = Some e2"
    by auto
  have w0: "0 \<le> width v" using assms(7) by linarith
  note bl = baseEntry_length [OF s(1) w0]
  have ev: "even (length (m_flags (baseEntry s1 v)))"
    using bl(1) by (metis even_mult_iff even_numeral even_of_nat)
  have kk: "k < length (m_flags (baseEntry s1 v)) div 2"
    using bl(1) assms(7) by linarith
  from markBit_flags_in_range [OF _ ev assms(5,6), of "if lv then FLAG_DRIVEN else FLAG_USED"] e2(1)
  have len: "length (m_flags e2) = length (m_flags (baseEntry s1 v))"
    and fl: "m_flags e2 ! (k * 2 + nat (if lv then FLAG_DRIVEN else FLAG_USED))"
    using kk assms(8,9) by auto
  have "bitFlag lv e2 k"
    using fl by (cases lv) (simp_all add: bitFlag_def usedFlag_def drivenFlag_def)
  moreover have "k < length (m_flags e2) div 2"
    using kk len by simp
  ultimately show ?thesis
    using le_state_entryOf [OF s(3,4) e2(2)] le_entry_bitFlag by blast
qed

lemma one_bit_select_and_read:
  assumes "undrivenAll u t = Inr (ds, u')" and "width v = 1"
    and "AstSel (AstVarRef v True) (AstConst num) widthp w \<in> set (reached t)"
    and "\<not> isFourState num" and "toUInt num = 0" and "1 \<le> w" and "w \<le> 2 ^ 30"
    and "AstVarRef v False \<in> set (reached t)"
  shows "filter (\<lambda>d. d_node d = v) ds = []"
proof -
  from undrivenAll_state [OF assms(1)]
  obtain st where st: "runActions (reached t) \<lparr> user1p = Map.empty, m_entryps = [] \<rparr> = Inr st"
    "new_UndrivenVisitor u t = Inr st" "wf_state st" "ds = reportAll (m_entryps st)"
    by blast
  from reached_VarRef_whole [OF wf_state_initial st(1) assms(8)]
  obtain e where e: "entryOf st v = Some e" "m_usedWhole e"
    by (auto simp: wholeFlag_def)
  from reached_Sel_bit [OF wf_state_initial st(1) assms(3,4), of 0] assms(2,5,6,7) e(1)
  have d0: "drivenFlag e 0"
    by (simp add: bitFlag_def)
  have "m_varp e = v" "int (length (m_flags e)) = width v * 2"
    using e(1) st(3) wf_slotD [of st v] wf_entryD [of st]
    by (auto simp: entryOf_wf split: option.splits)
  then have "length (m_flags e) = 2"
    using assms(2) by simp
  then have "allDriven e"
    using d0 by (simp add: allDriven_def)
  then have "m_usedWhole (promoted e)" "m_drivenWhole (promoted e)"
    using e(2) by (simp_all add: promoted_def)
  then have "fst (reportViolations e) = []"
    by (simp add: reportViolations_unfold testResults_def)
  then show ?thesis
    using reportAll_filter [OF st(3) e(1)] st(4) by simp
qed

section \<open>Claims\<close>

text \<open>
  C1. For a signal that is no parameter and no generate variable: when neither whole flag
  and no per-bit flag is set, \<^verbatim>\<open>reportViolations\<close> gives exactly one warning,
  \<^verbatim>\<open>UNDRIVEN\<close> "Signal is not driven, nor used", and so no \<^verbatim>\<open>UNUSED\<close> warning. The
  entry has at least one bit, that is two flags, as the entry of every signal has: a width
  is at least 1 once the widths are resolved.
\<close>

theorem C1_not_driven_nor_used:
  assumes "\<not> isParam (m_varp e)" "\<not> isGenVar (m_varp e)"
    and "\<not> m_usedWhole e" "\<not> m_drivenWhole e" "True \<notin> set (m_flags e)"
    and "2 \<le> length (m_flags e)"
  shows "fst (reportViolations e) =
     [Diag (m_varp e) UNDRIVEN (''Signal is not driven, nor used: '' @ prettyName (m_varp e))]"
proof -
  have "promoted e = e"
    using assms no_flags_allUsed [of e] by (simp add: promoted_def)
  moreover have "\<not> anyUsed e" "\<not> anyDriven e"
    using assms no_flags_anyUsed [of e] by (simp_all add: anyUsed_def anyDriven_def)
  ultimately show ?thesis
    using assms by (simp add: reportViolations_unfold testResults_def v3warn_def Let_def)
qed

theorem C1_not_driven_nor_used_witness:
  "new_UndrivenVarEntry (plainVar 1 ''w'' 3 False)
     = Inr (entryWith (plainVar 1 ''w'' 3 False) False False (replicate 6 False))
   \<and> fst (reportViolations (entryWith (plainVar 1 ''w'' 3 False) False False (replicate 6 False)))
     = [Diag (plainVar 1 ''w'' 3 False) UNDRIVEN ''Signal is not driven, nor used: w'']"
  using C1_not_driven_nor_used
    [of "entryWith (plainVar 1 ''w'' 3 False) False False (replicate 6 False)"]
  by (simp add: example_defs new_UndrivenVarEntry_def int_ok_def)

text \<open>
  C2. The claim asks that a bit index outside the signal is dropped. \<^verbatim>\<open>bitNumOk\<close> has no
  lower bound: for the first bit \<open>-1\<close> it answers true and the assignment goes to
  \<^verbatim>\<open>m_flags[-2]\<close> or \<^verbatim>\<open>m_flags[-1]\<close>, outside the vector, for every entry. The visitor
  reaches this with a select whose constant lsb has all 32 bits set. (For a first bit that
  is not negative the claim holds: lemmas \<open>usedBit_in_range\<close> and \<open>drivenBit_in_range\<close>.)
\<close>

theorem C2_negative_bit_out_of_bounds:
  "usedBit e (- 1) 1 = Inl OutOfBounds \<and> drivenBit e (- 1) 1 = Inl OutOfBounds
   \<and> visit (AstSel (AstVarRef (plainVar 1 ''w'' 8 False) False) (constNode (- 1)) (constNode 1) 1)
        \<lparr> user1p = Map.empty, m_entryps = [] \<rparr> = Inl OutOfBounds"
proof -
  have "usedBit e' (- 1) 1 = Inl OutOfBounds \<and> drivenBit e' (- 1) 1 = Inl OutOfBounds" for e'
    by (simp add: usedBit_def drivenBit_def markBit_negative)
  then show ?thesis
    by (simp add: getEntryp_def new_UndrivenVarEntry_def int_ok_def call_err_def example_defs)
qed

text \<open>
  C3, amended. An 8-bit signal with lsb offset 0, no parameter and no generate variable,
  whose driven flags are set for exactly the local bits 0 to 3 and whose whole-used flag is
  set: \<^verbatim>\<open>reportViolations\<close> gives exactly one warning, \<^verbatim>\<open>UNDRIVEN\<close> "Bits of signal are
  not driven", with the range text \<open>[4:7]\<close> when the declaration is ascending (little
  endian) and \<open>[7:4]\<close> when it is descending.
\<close>

theorem C3_upper_bits_not_driven:
  assumes "length (m_flags e) = 16" and "lsb (m_varp e) = 0"
    and "\<not> isParam (m_varp e)" and "\<not> isGenVar (m_varp e)"
    and "m_usedWhole e" and "\<not> m_drivenWhole e"
    and "map (drivenFlag e) [0..<8] = [True, True, True, True, False, False, False, False]"
  shows "fst (reportViolations e) =
     [Diag (m_varp e) UNDRIVEN (''Bits of signal are not driven: '' @ prettyName (m_varp e)
        @ (if littleEndian (m_varp e) then ''[4:7]'' else ''[7:4]''))]"
proof -
  have f: "\<not> m_flags e ! 15" "\<not> m_flags e ! 13" "\<not> m_flags e ! 11" "\<not> m_flags e ! 9"
    "m_flags e ! 7" "m_flags e ! 5" "m_flags e ! 3" "m_flags e ! 1"
    using assms(7) by (simp_all add: upt_8 drivenFlag_def)
  have names: "bitNames e FLAG_DRIVEN = (if littleEndian (m_varp e) then ''[4:7]'' else ''[7:4]'')"
    using f assms(1,2)
    by (simp add: bitNames_def bitNames_loop.simps runText_def wrap32_def cvtToStr_digit)
  have d: "\<not> allDriven e" "anyDriven e"
    using assms(1,7) by (simp_all add: allDriven_def anyDriven_def upt_8)
  have "testResults (promoted e) (anyUsed e) (anyDriven e) =
     [Diag (m_varp e) UNDRIVEN (''Bits of signal are not driven: '' @ prettyName (m_varp e)
        @ bitNames e FLAG_DRIVEN)]"
    using d assms(5,6) bitNames_promoted [of e FLAG_DRIVEN]
    by (simp add: testResults_def v3warn_def Let_def promoted_def)
  then show ?thesis
    using assms(3,4) names by (simp add: reportViolations_unfold)
qed

theorem C3_upper_bits_not_driven_witness:
  "fst (reportViolations (entryWith (plainVar 1 ''a'' 8 True) True False
       [False, True, False, True, False, True, False, True,
        False, False, False, False, False, False, False, False]))
     = [Diag (plainVar 1 ''a'' 8 True) UNDRIVEN ''Bits of signal are not driven: a[4:7]'']
   \<and> fst (reportViolations (entryWith (plainVar 2 ''d'' 8 False) True False
       [False, True, False, True, False, True, False, True,
        False, False, False, False, False, False, False, False]))
     = [Diag (plainVar 2 ''d'' 8 False) UNDRIVEN ''Bits of signal are not driven: d[7:4]'']"
  using C3_upper_bits_not_driven [of "entryWith (plainVar 1 ''a'' 8 True) True False
       [False, True, False, True, False, True, False, True,
        False, False, False, False, False, False, False, False]"]
    C3_upper_bits_not_driven [of "entryWith (plainVar 2 ''d'' 8 False) True False
       [False, True, False, True, False, True, False, True,
        False, False, False, False, False, False, False, False]"]
  by (simp add: example_defs drivenFlag_def upt_8)

text \<open>
  The claim as stated fails: for the ascending declaration, driven by a constant select of
  the bits 0 to 3 and read as a whole, the pass gives the range text \<open>[4:7]\<close>, not
  \<open>[7:4]\<close>.
\<close>

theorem C3_ascending_counterexample:
  "undrivenAll Map.empty (AstNodeOther [AstVarDecl (plainVar 1 ''a'' 8 True) [],
      AstSel (AstVarRef (plainVar 1 ''a'' 8 True) True) (constNode 0) (constNode 4) 4,
      AstVarRef (plainVar 1 ''a'' 8 True) False])
   = Inr ([Diag (plainVar 1 ''a'' 8 True) UNDRIVEN ''Bits of signal are not driven: a[4:7]''],
          [plainVar 1 ''a'' 8 True \<mapsto> 0])
   \<and> undrivenAll Map.empty (AstNodeOther [AstVarDecl (plainVar 1 ''a'' 8 True) [],
      AstSel (AstVarRef (plainVar 1 ''a'' 8 True) True) (constNode 0) (constNode 4) 4,
      AstVarRef (plainVar 1 ''a'' 8 True) False])
   \<noteq> Inr ([Diag (plainVar 1 ''a'' 8 True) UNDRIVEN ''Bits of signal are not driven: a[7:4]''],
          [plainVar 1 ''a'' 8 True \<mapsto> 0])"
  by (simp add: pass_defs report_defs example_defs)

text \<open>
  C4. A 10-bit signal with lsb offset 0 whose used flags are unset for exactly the local
  bits 7, 8 and 9: \<^verbatim>\<open>bitNames\<close> gives \<open>[9:7]\<close> for the descending declaration and
  \<open>[7:9]\<close> for the ascending (little endian) one.
\<close>

theorem C4_range_text_endianness:
  assumes "length (m_flags e) = 20" and "lsb (m_varp e) = 0"
    and "map (usedFlag e) [0..<10] = [True, True, True, True, True, True, True, False, False, False]"
  shows "bitNames e FLAG_USED = (if littleEndian (m_varp e) then ''[7:9]'' else ''[9:7]'')"
proof -
  have f: "\<not> m_flags e ! 18" "\<not> m_flags e ! 16" "\<not> m_flags e ! 14"
    "m_flags e ! 12" "m_flags e ! 10" "m_flags e ! 8" "m_flags e ! 6" "m_flags e ! 4"
    "m_flags e ! 2" "m_flags e ! 0"
    using assms(3) by (simp_all add: upt_10 usedFlag_def)
  show ?thesis
    using f assms(1,2)
    by (simp add: bitNames_def bitNames_loop.simps runText_def wrap32_def cvtToStr_digit)
qed

theorem C4_range_text_endianness_witness:
  "bitNames (entryWith (plainVar 1 ''d'' 10 False) False False
       [True, False, True, False, True, False, True, False, True, False, True, False, True, False,
        False, False, False, False, False, False]) FLAG_USED = ''[9:7]''
   \<and> bitNames (entryWith (plainVar 2 ''a'' 10 True) False False
       [True, False, True, False, True, False, True, False, True, False, True, False, True, False,
        False, False, False, False, False, False]) FLAG_USED = ''[7:9]''"
  using C4_range_text_endianness [of "entryWith (plainVar 1 ''d'' 10 False) False False
       [True, False, True, False, True, False, True, False, True, False, True, False, True, False,
        False, False, False, False, False, False]"]
    C4_range_text_endianness [of "entryWith (plainVar 2 ''a'' 10 True) False False
       [True, False, True, False, True, False, True, False, True, False, True, False, True, False,
        False, False, False, False, False, False]"]
  by (simp add: example_defs usedFlag_def upt_10)

text \<open>
  C5, amended. The visitor does not enter a coverage or trace node, so a reference inside
  one sets no flag. Take a signal of width at least 1 that is no parameter, no generate
  variable, no output and not public, whose declaration the traversal reaches, and that
  no reached node reads. The pass then gives for it either the single warning \<^verbatim>\<open>UNDRIVEN\<close>
  "Signal is not driven, nor used" (nothing drives it), or first of all the warning
  \<^verbatim>\<open>UNUSED\<close> "Signal is not used". When no reached node refers to it at all, it gets
  exactly \<^verbatim>\<open>UNUSED\<close> "Signal is not used" if its declaration marks it driven (an input or
  a publicly writable signal), and exactly \<^verbatim>\<open>UNDRIVEN\<close> "Signal is not driven, nor used"
  otherwise.
\<close>

theorem C5_instrumentation_only:
  assumes "undrivenAll u t = Inr (ds, u')"
    and "list_ex (isDeclOf v) (reached t)"
    and "\<not> list_ex (refersTo False v) (reached t)"
    and "\<not> declFlag False v" and "\<not> isParam v" and "\<not> isGenVar v" and "1 \<le> width v"
  shows "(visit (AstCoverDecl cs) st0 = Inr st0 \<and> visit (AstCoverInc cs) st0 = Inr st0
      \<and> visit (AstCoverToggle cs) st0 = Inr st0 \<and> visit (AstTraceDecl cs) st0 = Inr st0
      \<and> visit (AstTraceInc cs) st0 = Inr st0)
    \<and> (filter (\<lambda>d. d_node d = v) ds
          = [Diag v UNDRIVEN (''Signal is not driven, nor used: '' @ prettyName v)]
       \<or> (\<exists>rest. filter (\<lambda>d. d_node d = v) ds
          = Diag v UNUSED (''Signal is not used: '' @ prettyName v) # rest))
    \<and> (\<not> list_ex (refersTo True v) (reached t) \<longrightarrow>
         filter (\<lambda>d. d_node d = v) ds
          = (if declFlag True v
             then [Diag v UNUSED (''Signal is not used: '' @ prettyName v)]
             else [Diag v UNDRIVEN (''Signal is not driven, nor used: '' @ prettyName v)]))"
proof -
  from undrivenAll_state [OF assms(1)]
  obtain st where st: "runActions (reached t) \<lparr> user1p = Map.empty, m_entryps = [] \<rparr> = Inr st"
    "new_UndrivenVisitor u t = Inr st" "wf_state st" "ds = reportAll (m_entryps st)"
    by blast
  obtain dcs where d: "AstVarDecl v dcs \<in> set (reached t)"
  proof -
    obtain n where n: "n \<in> set (reached t)" "isDeclOf v n"
      using assms(2) by (auto simp: list_ex_iff)
    from n(2) obtain dcs where "n = AstVarDecl v dcs"
      by (cases n) simp_all
    then show ?thesis using n(1) that by blast
  qed
  from reached_VarDecl_whole [OF wf_state_initial st(1) d, of True]
  obtain e where e: "entryOf st v = Some e" "declFlag True v \<longrightarrow> m_drivenWhole e"
    by (auto simp: wholeFlag_def)
  have v: "m_varp e = v" and len: "int (length (m_flags e)) = width v * 2"
    using e(1) st(3) wf_slotD [of st v] wf_entryD [of st]
    by (auto simp: entryOf_wf split: option.splits)
  have len2: "2 \<le> length (m_flags e)"
    using len assms(7) by linarith
  have init: "flagBound lv \<lparr> user1p = Map.empty, m_entryps = [] \<rparr> v" for lv
    by (simp add: flagBound_def entryOf_def)
  have "flagBound False st v"
    using runActions_flagBound [OF wf_state_initial init assms(3) st(1)] .
  then have bu: "entryBound False v e"
    using e(1) by (simp add: flagBound_def)
  note nu = entryBound_not_used [OF bu assms(4) len2]
  have f: "filter (\<lambda>d. d_node d = v) ds = fst (reportViolations e)"
    using reportAll_filter [OF st(3) e(1)] st(4) by simp
  note r = report_never_used [OF nu, unfolded v, OF assms(5,6)]
  have part1: "filter (\<lambda>d. d_node d = v) ds
          = [Diag v UNDRIVEN (''Signal is not driven, nor used: '' @ prettyName v)]
       \<or> (\<exists>rest. filter (\<lambda>d. d_node d = v) ds
          = Diag v UNUSED (''Signal is not used: '' @ prettyName v) # rest)"
    unfolding f r by (cases "anyDriven e") simp_all
  have part2: "filter (\<lambda>d. d_node d = v) ds
          = (if declFlag True v
             then [Diag v UNUSED (''Signal is not used: '' @ prettyName v)]
             else [Diag v UNDRIVEN (''Signal is not driven, nor used: '' @ prettyName v)])"
    if nd: "\<not> list_ex (refersTo True v) (reached t)"
  proof -
    have "flagBound True st v"
      using runActions_flagBound [OF wf_state_initial init nd st(1)] .
    then have bd: "entryBound True v e"
      using e(1) by (simp add: flagBound_def)
    show ?thesis
    proof (cases "declFlag True v")
      case True
      then have "m_drivenWhole e" using e(2) by simp
      then show ?thesis
        unfolding f r using True by (simp add: anyDriven_def)
    next
      case False
      then show ?thesis
        unfolding f r using entryBound_not_driven [OF bd False len2] by simp
    qed
  qed
  show ?thesis
    using part1 part2 by simp
qed

theorem C5_instrumentation_only_witness:
  "undrivenAll Map.empty
      (AstNodeOther [AstVarDecl ((plainVar 2 ''i'' 4 False)\<lparr>isInput := True\<rparr>) [],
         AstTraceInc [AstVarRef ((plainVar 2 ''i'' 4 False)\<lparr>isInput := True\<rparr>) False]])
     = Inr ([Diag ((plainVar 2 ''i'' 4 False)\<lparr>isInput := True\<rparr>) UNUSED ''Signal is not used: i''],
            [(plainVar 2 ''i'' 4 False)\<lparr>isInput := True\<rparr> \<mapsto> 0])
   \<and> filter (\<lambda>d. d_node d = (plainVar 2 ''i'' 4 False)\<lparr>isInput := True\<rparr>)
        [Diag ((plainVar 2 ''i'' 4 False)\<lparr>isInput := True\<rparr>) UNUSED ''Signal is not used: i'']
     = [Diag ((plainVar 2 ''i'' 4 False)\<lparr>isInput := True\<rparr>) UNUSED
          (''Signal is not used: '' @ prettyName ((plainVar 2 ''i'' 4 False)\<lparr>isInput := True\<rparr>))]"
proof -
  let ?v = "(plainVar 2 ''i'' 4 False)\<lparr>isInput := True\<rparr>"
  let ?t = "AstNodeOther [AstVarDecl ?v [], AstTraceInc [AstVarRef ?v False]]"
  have run: "undrivenAll Map.empty ?t
      = Inr ([Diag ?v UNUSED ''Signal is not used: i''], [?v \<mapsto> 0])"
    by (simp add: pass_defs report_defs example_defs)
  have "list_ex (isDeclOf ?v) (reached ?t)" "\<not> list_ex (refersTo False ?v) (reached ?t)"
    "\<not> list_ex (refersTo True ?v) (reached ?t)" "\<not> declFlag False ?v" "declFlag True ?v"
    "\<not> isParam ?v" "\<not> isGenVar ?v" "1 \<le> width ?v"
    by (simp_all add: example_defs declFlag_def)
  then show ?thesis
    using run C5_instrumentation_only [OF run] by simp
qed

text \<open>
  The claim as stated fails for a plain wire that is referenced in a coverage node only:
  nothing drives it, and the pass gives \<^verbatim>\<open>UNDRIVEN\<close> "Signal is not driven, nor used",
  not \<^verbatim>\<open>UNUSED\<close> "Signal is not used".
\<close>

theorem C5_plain_wire_counterexample:
  "undrivenAll Map.empty
      (AstNodeOther [AstVarDecl (plainVar 1 ''w'' 1 False) [],
         AstCoverInc [AstVarRef (plainVar 1 ''w'' 1 False) False]])
     = Inr ([Diag (plainVar 1 ''w'' 1 False) UNDRIVEN ''Signal is not driven, nor used: w''],
            [plainVar 1 ''w'' 1 False \<mapsto> 0])
   \<and> Diag (plainVar 1 ''w'' 1 False) UNUSED ''Signal is not used: w''
       \<notin> set [Diag (plainVar 1 ''w'' 1 False) UNDRIVEN ''Signal is not driven, nor used: w'']"
  by (simp add: pass_defs report_defs example_defs)

text \<open>
  C6. For a signal that is no parameter and no generate variable, \<^verbatim>\<open>reportViolations\<close>
  sets the whole-used flag when every bit's used flag is set, and the whole-driven flag when
  every bit's driven flag is set, and takes its branches on the entry so changed. For a
  1-bit signal, when the traversal reaches a select from an lvalue reference to it with the
  known constant lsb 0 and reaches a read reference to it, the pass gives no warning for
  this signal.
\<close>

theorem C6_promotion:
  "(\<not> isParam (m_varp e) \<and> \<not> isGenVar (m_varp e) \<longrightarrow>
      (allUsed e \<longrightarrow> m_usedWhole (snd (reportViolations e)))
    \<and> (allDriven e \<longrightarrow> m_drivenWhole (snd (reportViolations e)))
    \<and> fst (reportViolations e)
        = testResults (snd (reportViolations e)) (anyUsed e) (anyDriven e))
   \<and> (undrivenAll u t = Inr (ds, u') \<and> width v = 1
        \<and> AstSel (AstVarRef v True) (AstConst num) widthp w \<in> set (reached t)
        \<and> \<not> isFourState num \<and> toUInt num = 0 \<and> 1 \<le> w \<and> w \<le> 2 ^ 30
        \<and> AstVarRef v False \<in> set (reached t)
      \<longrightarrow> filter (\<lambda>d. d_node d = v) ds = [])"
proof (intro conjI impI)
  assume "\<not> isParam (m_varp e) \<and> \<not> isGenVar (m_varp e)"
  then have r: "reportViolations e = (testResults (promoted e) (anyUsed e) (anyDriven e), promoted e)"
    by (simp add: reportViolations_unfold)
  show "fst (reportViolations e)
        = testResults (snd (reportViolations e)) (anyUsed e) (anyDriven e)"
    by (simp add: r)
  show "m_usedWhole (snd (reportViolations e))" if "allUsed e"
    using that by (simp add: r promoted_def)
  show "m_drivenWhole (snd (reportViolations e))" if "allDriven e"
    using that by (simp add: r promoted_def)
next
  assume "undrivenAll u t = Inr (ds, u') \<and> width v = 1
        \<and> AstSel (AstVarRef v True) (AstConst num) widthp w \<in> set (reached t)
        \<and> \<not> isFourState num \<and> toUInt num = 0 \<and> 1 \<le> w \<and> w \<le> 2 ^ 30
        \<and> AstVarRef v False \<in> set (reached t)"
  then show "filter (\<lambda>d. d_node d = v) ds = []"
    using one_bit_select_and_read [of u t ds u' v num widthp w] by blast
qed

theorem C6_promotion_witness:
  "m_drivenWhole (snd (reportViolations
       (entryWith (plainVar 1 ''b'' 1 False) True False [False, True])))
   \<and> m_usedWhole (snd (reportViolations
       (entryWith (plainVar 1 ''b'' 1 False) False True [True, False])))
   \<and> undrivenAll Map.empty (AstNodeOther [AstVarDecl (plainVar 1 ''b'' 1 False) [],
          AstVarDecl (plainVar 2 ''x'' 8 False) [],
          AstSel (AstVarRef (plainVar 1 ''b'' 1 False) True) (constNode 0) (constNode 1) 1,
          AstVarRef (plainVar 1 ''b'' 1 False) False])
        = Inr ([Diag (plainVar 2 ''x'' 8 False) UNDRIVEN ''Signal is not driven, nor used: x''],
               [plainVar 1 ''b'' 1 False \<mapsto> 0, plainVar 2 ''x'' 8 False \<mapsto> 1])
   \<and> filter (\<lambda>d. d_node d = plainVar 1 ''b'' 1 False)
        [Diag (plainVar 2 ''x'' 8 False) UNDRIVEN ''Signal is not driven, nor used: x''] = []"
proof -
  let ?b = "plainVar 1 ''b'' 1 False"
  let ?x = "plainVar 2 ''x'' 8 False"
  let ?t = "AstNodeOther [AstVarDecl ?b [], AstVarDecl ?x [],
          AstSel (AstVarRef ?b True) (constNode 0) (constNode 1) 1, AstVarRef ?b False]"
  have run: "undrivenAll Map.empty ?t
      = Inr ([Diag ?x UNDRIVEN ''Signal is not driven, nor used: x''], [?b \<mapsto> 0, ?x \<mapsto> 1])"
    by (simp add: pass_defs report_defs example_defs)
  have hyps: "width ?b = 1"
    "AstSel (AstVarRef ?b True) (AstConst \<lparr> isFourState = False, toUInt = 0 \<rparr>) (constNode 1) 1
       \<in> set (reached ?t)"
    "AstVarRef ?b False \<in> set (reached ?t)"
    by (simp_all add: example_defs)
  show ?thesis
    using run hyps
      C6_promotion [of "entryWith ?b True False [False, True]" Map.empty ?t
        "[Diag ?x UNDRIVEN ''Signal is not driven, nor used: x'']" "[?b \<mapsto> 0, ?x \<mapsto> 1]"
        ?b "\<lparr> isFourState = False, toUInt = 0 \<rparr>" "constNode 1" 1]
      C6_promotion [of "entryWith ?b False True [True, False]" Map.empty ?t
        "[Diag ?x UNDRIVEN ''Signal is not driven, nor used: x'']" "[?b \<mapsto> 0, ?x \<mapsto> 1]"
        ?b "\<lparr> isFourState = False, toUInt = 0 \<rparr>" "constNode 1" 1]
    by (simp add: example_defs allUsed_def allDriven_def usedFlag_def drivenFlag_def)
qed

text \<open>
  C7. An entry whose two whole-vector flags are both true when \<^verbatim>\<open>reportViolations\<close> is
  called gives no warning, whatever its per-bit flags are.
\<close>

theorem C7_whole_flags_no_diagnostic:
  "m_usedWhole e \<and> m_drivenWhole e \<Longrightarrow> fst (reportViolations e) = []"
  by (simp add: reportViolations_whole_both)

theorem C7_whole_flags_no_diagnostic_witness:
  "m_usedWhole \<lparr> m_varp = \<lparr> ident = 0, prettyName = ''io'', width = 8, lsb = 0,
        littleEndian = False, isParam = False, isGenVar = False, isInput = True,
        isOutput = True, isSigPublic = False, isSigUserRWPublic = False,
        isSigUserRdPublic = False \<rparr>,
      m_usedWhole = True, m_drivenWhole = True, m_flags = replicate 16 False \<rparr>
   \<and> fst (reportViolations \<lparr> m_varp = \<lparr> ident = 0, prettyName = ''io'', width = 8, lsb = 0,
        littleEndian = False, isParam = False, isGenVar = False, isInput = True,
        isOutput = True, isSigPublic = False, isSigUserRWPublic = False,
        isSigUserRdPublic = False \<rparr>,
      m_usedWhole = True, m_drivenWhole = True, m_flags = replicate 16 False \<rparr>) = []"
  using C7_whole_flags_no_diagnostic [of "\<lparr> m_varp = \<lparr> ident = 0, prettyName = ''io'', width = 8, lsb = 0,
        littleEndian = False, isParam = False, isGenVar = False, isInput = True,
        isOutput = True, isSigPublic = False, isSigUserRWPublic = False,
        isSigUserRdPublic = False \<rparr>,
      m_usedWhole = True, m_drivenWhole = True, m_flags = replicate 16 False \<rparr>"]
  by simp

text \<open>
  C8. When the traversal reaches an array select that has a read reference to a signal
  among its children, the signal's entry has its whole-used flag set at the end of the
  traversal, and the pass gives for this signal no warning, or only "Signal is not driven",
  or only "Bits of signal are not driven": never a warning about use.
\<close>

theorem C8_array_read_whole_used:
  assumes "undrivenAll u t = Inr (ds, u')"
    and "AstArraySel cs \<in> set (reached t)" and "AstVarRef v False \<in> set cs"
  shows "(\<exists>st e. new_UndrivenVisitor u t = Inr st \<and> entryOf st v = Some e \<and> m_usedWhole e)
    \<and> (filter (\<lambda>d. d_node d = v) ds = []
       \<or> filter (\<lambda>d. d_node d = v) ds
           = [Diag v UNDRIVEN (''Signal is not driven: '' @ prettyName v)]
       \<or> (\<exists>r. filter (\<lambda>d. d_node d = v) ds
           = [Diag v UNDRIVEN (''Bits of signal are not driven: '' @ prettyName v @ r)]))"
proof -
  from undrivenAll_state [OF assms(1)]
  obtain st where st: "runActions (reached t) \<lparr> user1p = Map.empty, m_entryps = [] \<rparr> = Inr st"
    "new_UndrivenVisitor u t = Inr st" "wf_state st" "ds = reportAll (m_entryps st)"
    by blast
  have "AstVarRef v False \<in> set (reached t)"
    using reached_child [OF assms(2,3)] .
  from reached_VarRef_whole [OF wf_state_initial st(1) this]
  obtain e where e: "entryOf st v = Some e" "m_usedWhole e"
    by (auto simp: wholeFlag_def)
  have v: "m_varp e = v"
    using e(1) st(3) wf_slotD [of st v] by (auto simp: entryOf_wf split: option.splits)
  have f: "filter (\<lambda>d. d_node d = v) ds = fst (reportViolations e)"
    using reportAll_filter [OF st(3) e(1)] st(4) by simp
  show ?thesis
    using report_whole_used [OF e(2)] e st(2) unfolding f v by blast
qed

theorem C8_array_read_whole_used_witness:
  "undrivenAll Map.empty
      (AstNodeOther [AstVarDecl (plainVar 1 ''arr'' 8 False) [],
         AstVarDecl ((plainVar 2 ''i'' 2 False)\<lparr>isInput := True\<rparr>) [],
         AstArraySel [AstVarRef (plainVar 1 ''arr'' 8 False) False,
                      AstVarRef ((plainVar 2 ''i'' 2 False)\<lparr>isInput := True\<rparr>) False]])
     = Inr ([Diag (plainVar 1 ''arr'' 8 False) UNDRIVEN ''Signal is not driven: arr''],
            [plainVar 1 ''arr'' 8 False \<mapsto> 0,
             (plainVar 2 ''i'' 2 False)\<lparr>isInput := True\<rparr> \<mapsto> 1])
   \<and> (\<exists>st e. new_UndrivenVisitor Map.empty
      (AstNodeOther [AstVarDecl (plainVar 1 ''arr'' 8 False) [],
         AstVarDecl ((plainVar 2 ''i'' 2 False)\<lparr>isInput := True\<rparr>) [],
         AstArraySel [AstVarRef (plainVar 1 ''arr'' 8 False) False,
                      AstVarRef ((plainVar 2 ''i'' 2 False)\<lparr>isInput := True\<rparr>) False]]) = Inr st
        \<and> entryOf st (plainVar 1 ''arr'' 8 False) = Some e \<and> m_usedWhole e)"
proof -
  let ?a = "plainVar 1 ''arr'' 8 False"
  let ?i = "(plainVar 2 ''i'' 2 False)\<lparr>isInput := True\<rparr>"
  let ?t = "AstNodeOther [AstVarDecl ?a [], AstVarDecl ?i [],
         AstArraySel [AstVarRef ?a False, AstVarRef ?i False]]"
  have run: "undrivenAll Map.empty ?t
      = Inr ([Diag ?a UNDRIVEN ''Signal is not driven: arr''], [?a \<mapsto> 0, ?i \<mapsto> 1])"
    by (simp add: pass_defs report_defs example_defs)
  have "AstArraySel [AstVarRef ?a False, AstVarRef ?i False] \<in> set (reached ?t)"
    "AstVarRef ?a False \<in> set [AstVarRef ?a False, AstVarRef ?i False]"
    by simp_all
  from C8_array_read_whole_used [OF run this] show ?thesis
    using run by simp
qed

text \<open>
  C9. \<^verbatim>\<open>undrivenAll\<close> clears the \<^verbatim>\<open>user1p()\<close> slots before it visits the tree, so its
  result does not depend on what it finds in them: a second run on the same tree, started
  from the slots the first run left, gives the same warnings as the first.
\<close>

theorem C9_second_run_same:
  "(undrivenAll u nodep = Inr (ds, u') \<longrightarrow> undrivenAll u' nodep = Inr (ds, u'))
   \<and> undrivenAll u nodep = undrivenAll u'' nodep"
  by (simp add: undrivenAll_def new_UndrivenVisitor_def user1ClearTree_def)

theorem C9_second_run_same_witness:
  "undrivenAll Map.empty (AstNodeOther [AstVarDecl (plainVar 1 ''w'' 3 False) []])
     = Inr ([Diag (plainVar 1 ''w'' 3 False) UNDRIVEN ''Signal is not driven, nor used: w''],
            [plainVar 1 ''w'' 3 False \<mapsto> 0])
   \<and> undrivenAll [plainVar 1 ''w'' 3 False \<mapsto> 0]
        (AstNodeOther [AstVarDecl (plainVar 1 ''w'' 3 False) []])
     = Inr ([Diag (plainVar 1 ''w'' 3 False) UNDRIVEN ''Signal is not driven, nor used: w''],
            [plainVar 1 ''w'' 3 False \<mapsto> 0])"
proof -
  have first: "undrivenAll Map.empty (AstNodeOther [AstVarDecl (plainVar 1 ''w'' 3 False) []])
     = Inr ([Diag (plainVar 1 ''w'' 3 False) UNDRIVEN ''Signal is not driven, nor used: w''],
            [plainVar 1 ''w'' 3 False \<mapsto> 0])"
    by (simp add: pass_defs report_defs example_defs)
  show ?thesis
    using first C9_second_run_same [of Map.empty
        "AstNodeOther [AstVarDecl (plainVar 1 ''w'' 3 False) []]"
        "[Diag (plainVar 1 ''w'' 3 False) UNDRIVEN ''Signal is not driven, nor used: w'']"
        "[plainVar 1 ''w'' 3 False \<mapsto> 0]"]
    by simp
qed

text \<open>
  C10. When \<^verbatim>\<open>reportViolations\<close> gives a warning "Bits of signal are not used" or "Bits of
  signal are not driven", the range text \<open>r\<close> that follows the name is not \<open>[]\<close>: the
  branch is taken only when the whole flag stayed false, so some bit's flag is unset and
  \<^verbatim>\<open>bitNames\<close> writes a run for it.
\<close>

theorem C10_partial_range_not_empty:
  "(Diag n c (''Bits of signal are not used: '' @ prettyName (m_varp e) @ r)
       \<in> set (fst (reportViolations e)) \<longrightarrow> r \<noteq> ''[]'')
   \<and> (Diag n c (''Bits of signal are not driven: '' @ prettyName (m_varp e) @ r)
       \<in> set (fst (reportViolations e)) \<longrightarrow> r \<noteq> ''[]'')"
proof (intro conjI impI)
  assume a: "Diag n c (''Bits of signal are not used: '' @ prettyName (m_varp e) @ r)
       \<in> set (fst (reportViolations e))"
  then have np: "\<not> isParam (m_varp e) \<and> \<not> isGenVar (m_varp e)"
    by (auto simp: reportViolations_unfold split: if_splits)
  have "m_varp (promoted e) = m_varp e"
    by (simp add: promoted_def)
  with a np have "\<not> m_usedWhole (promoted e) \<and> r = bitNames (promoted e) FLAG_USED"
    using testResults_bits_unused [of n c "promoted e" r "anyUsed e" "anyDriven e"]
    by (simp add: reportViolations_unfold)
  then have "\<not> allUsed e" "r = bitNames e FLAG_USED"
    by (simp_all add: promoted_def bitNames_promoted [unfolded promoted_def])
  then show "r \<noteq> ''[]''"
    using not_allUsed_bitNames by simp
next
  assume a: "Diag n c (''Bits of signal are not driven: '' @ prettyName (m_varp e) @ r)
       \<in> set (fst (reportViolations e))"
  then have np: "\<not> isParam (m_varp e) \<and> \<not> isGenVar (m_varp e)"
    by (auto simp: reportViolations_unfold split: if_splits)
  have "m_varp (promoted e) = m_varp e"
    by (simp add: promoted_def)
  with a np have "\<not> m_drivenWhole (promoted e) \<and> r = bitNames (promoted e) FLAG_DRIVEN"
    using testResults_bits_undriven [of n c "promoted e" r "anyUsed e" "anyDriven e"]
    by (simp add: reportViolations_unfold)
  then have "\<not> allDriven e" "r = bitNames e FLAG_DRIVEN"
    by (simp_all add: promoted_def bitNames_promoted [unfolded promoted_def])
  then show "r \<noteq> ''[]''"
    using not_allDriven_bitNames by simp
qed

theorem C10_partial_range_not_empty_witness:
  "Diag (plainVar 1 ''a'' 2 False) UNDRIVEN (''Bits of signal are not driven: '' @ ''a'' @ ''[1]'')
     \<in> set (fst (reportViolations
          (entryWith (plainVar 1 ''a'' 2 False) True False [False, True, False, False])))
   \<and> ''[1]'' \<noteq> ''[]''
   \<and> Diag (plainVar 1 ''a'' 2 False) UNUSED (''Bits of signal are not used: '' @ ''a'' @ ''[0]'')
     \<in> set (fst (reportViolations
          (entryWith (plainVar 1 ''a'' 2 False) False True [False, False, True, False])))
   \<and> ''[0]'' \<noteq> ''[]''"
  using C10_partial_range_not_empty [of "plainVar 1 ''a'' 2 False" UNDRIVEN
      "entryWith (plainVar 1 ''a'' 2 False) True False [False, True, False, False]" "''[1]''"]
    C10_partial_range_not_empty [of "plainVar 1 ''a'' 2 False" UNUSED
      "entryWith (plainVar 1 ''a'' 2 False) False True [False, False, True, False]" "''[0]''"]
  by (simp add: report_defs example_defs)

end
